theory Spec2Isabelle
  imports Main "HOL-Library.Sublist"
begin

section \<open>Data model\<close>

text \<open>
  The component descriptor of \<^verbatim>\<open>component-registry.ts\<close> (\<^verbatim>\<open>ComponentSchema\<close>). Optional
  fields of the schema are \<open>option\<close> values.
\<close>

datatype file_type = Component_type | Style_type | Util_type | Type_type

record component_file =
  path :: string
  content :: string
  type :: file_type

record Component =
  id :: string
  name :: string
  description :: string
  category :: string
  dependencies :: "string list"
  devDependencies :: "string list option"
  registryDependencies :: "string list option"
  files :: "component_file list"

text \<open>
  Errors thrown by the services, and the errors of the operating system that a write
  can throw. \<open>message\<close> is the text of the JavaScript \<^verbatim>\<open>Error\<close>:
  \<^verbatim>\<open>Component "<id>" not found\<close> (\<^verbatim>\<open>ComponentRegistry.getComponent\<close>) and
  \<^verbatim>\<open>File already exists: <path>\<close> (\<^verbatim>\<open>ComponentInstaller.installComponent\<close>). The message
  of a system error starts with its code and description; the system call and the path
  that Node appends to them are left out.
\<close>

datatype os_code = EEXIST | ENOTDIR | EISDIR | ENOENT

datatype error = ComponentNotFound string | FileExists string | SystemError os_code

fun describe :: "os_code \<Rightarrow> string" where
  "describe EEXIST = ''EEXIST: file already exists''"
| "describe ENOTDIR = ''ENOTDIR: not a directory''"
| "describe EISDIR = ''EISDIR: illegal operation on a directory''"
| "describe ENOENT = ''ENOENT: no such file or directory''"

fun message :: "error \<Rightarrow> string" where
  "message (ComponentNotFound k) = ''Component '' @ [CHR 0x22] @ k @ [CHR 0x22] @ '' not found''"
| "message (FileExists p) = ''File already exists: '' @ p"
| "message (SystemError code) = describe code"

text \<open>
  The registry client is a black box that answers the same way each time it is asked
  (its cache changes no answer): \<^verbatim>\<open>getComponent(id)\<close> resolves to a descriptor of the
  schema's shape or throws. \<open>None\<close> is the throwing case.
\<close>

type_synonym registry = "string \<Rightarrow> Component option"

definition getComponent :: "registry \<Rightarrow> string \<Rightarrow> error + Component" where
  "getComponent reg k = (case reg k of None \<Rightarrow> Inl (ComponentNotFound k) | Some c \<Rightarrow> Inr c)"

section \<open>Dependency resolver\<close>

text \<open>
  \<^verbatim>\<open>resolveComponentsWithDependencies\<close>. The JavaScript \<^verbatim>\<open>Map\<close> named \<^verbatim>\<open>resolved\<close> iterates in
  insertion order, so it is an association list that grows at the end; \<^verbatim>\<open>toResolve\<close> is
  the work queue. The \<^verbatim>\<open>forEach\<close> over \<^verbatim>\<open>registryDependencies\<close> pushes, in order, the
  dependencies that \<^verbatim>\<open>resolved\<close> does not hold; \<^verbatim>\<open>resolved\<close> does not change meanwhile,
  so this is a \<open>filter\<close>. The loop also records a trace of what it does to the outside
  and to the queue: every call of \<^verbatim>\<open>registry.getComponent\<close> and every \<^verbatim>\<open>toResolve.push\<close>.
  The loop may run forever on an unbounded registry, so it is a partial function:
  \<open>None\<close> is non-termination.
\<close>

datatype resolver_event = Fetch string | Push string

definition has :: "(string \<times> Component) list \<Rightarrow> string \<Rightarrow> bool" where
  "has resolved k = (k \<in> set (map fst resolved))"

definition deps_of :: "Component \<Rightarrow> string list" where
  "deps_of c = (case registryDependencies c of None \<Rightarrow> [] | Some ds \<Rightarrow> ds)"

partial_function (option) resolve_loop ::
  "registry \<Rightarrow> (string \<times> Component) list \<Rightarrow> string list \<Rightarrow> resolver_event list \<Rightarrow>
     ((error + (string \<times> Component) list) \<times> resolver_event list) option"
where
  "resolve_loop reg resolved toResolve tr =
     (case toResolve of
        [] \<Rightarrow> Some (Inr resolved, tr)
      | k # rest \<Rightarrow>
          if has resolved k then resolve_loop reg resolved rest tr
          else (case getComponent reg k of
                  Inl e \<Rightarrow> Some (Inl e, tr @ [Fetch k])
                | Inr component \<Rightarrow>
                    let resolved' = resolved @ [(k, component)];
                        pushed = filter (\<lambda>dep. \<not> has resolved' dep) (deps_of component)
                    in resolve_loop reg resolved' (rest @ pushed)
                         (tr @ Fetch k # map Push pushed)))"

declare resolve_loop.simps [code]

definition resolve_trace ::
  "registry \<Rightarrow> string list \<Rightarrow> ((error + Component list) \<times> resolver_event list) option" where
  "resolve_trace reg componentIds =
     (case resolve_loop reg [] componentIds [] of
        None \<Rightarrow> None
      | Some (Inl e, tr) \<Rightarrow> Some (Inl e, tr)
      | Some (Inr resolved, tr) \<Rightarrow> Some (Inr (map snd resolved), tr))"

definition resolveComponentsWithDependencies ::
  "registry \<Rightarrow> string list \<Rightarrow> (error + Component list) option" where
  "resolveComponentsWithDependencies reg componentIds =
     map_option fst (resolve_trace reg componentIds)"

text \<open>
  Vocabulary for the resolver's properties. \<open>reachable reg ids\<close> is the closure of the
  requested identifiers under registry-dependency edges. \<open>first_seen\<close> keeps the first
  occurrence of every element of a list. \<open>no_revisit seen tr\<close> reads a trace from the left
  with the identifiers resolved so far: no fetch and no push names one of them.
\<close>

inductive_set reachable :: "registry \<Rightarrow> string list \<Rightarrow> string set"
  for reg :: registry and ids :: "string list"
where
  requested: "k \<in> set ids \<Longrightarrow> k \<in> reachable reg ids"
| dependency: "k \<in> reachable reg ids \<Longrightarrow> reg k = Some c \<Longrightarrow> d \<in> set (deps_of c)
     \<Longrightarrow> d \<in> reachable reg ids"

fun first_seen :: "'a list \<Rightarrow> 'a list" where
  "first_seen [] = []"
| "first_seen (x # xs) = x # removeAll x (first_seen xs)"

fun no_revisit :: "string list \<Rightarrow> resolver_event list \<Rightarrow> bool" where
  "no_revisit seen [] = True"
| "no_revisit seen (Fetch k # tr) = (k \<notin> set seen \<and> no_revisit (seen @ [k]) tr)"
| "no_revisit seen (Push d # tr) = (d \<notin> set seen \<and> no_revisit seen tr)"

fun fetched :: "resolver_event list \<Rightarrow> string list" where
  "fetched [] = []"
| "fetched (Fetch k # tr) = k # fetched tr"
| "fetched (Push d # tr) = fetched tr"

text \<open>
  The loop invariant: \<open>R\<close> is the resolved mapping, \<open>Q\<close> the queue and \<open>T\<close> the trace so
  far of a run that was asked for \<open>ids\<close>.
\<close>

definition resolver_inv ::
  "registry \<Rightarrow> string list \<Rightarrow> (string \<times> Component) list \<Rightarrow> string list \<Rightarrow>
     resolver_event list \<Rightarrow> bool"
where
  "resolver_inv reg ids R Q T \<longleftrightarrow>
     (\<forall>(k, c) \<in> set R. reg k = Some c) \<and>
     distinct (map fst R) \<and>
     set (map fst R) \<union> set Q \<subseteq> reachable reg ids \<and>
     map fst R @ filter (\<lambda>k. k \<notin> set (map fst R)) (first_seen Q)
       = first_seen (ids @ concat (map (deps_of \<circ> snd) R)) \<and>
     no_revisit [] T \<and> fetched T = map fst R"

text \<open>
  \<open>dep_path reg p\<close>: the non-empty list \<open>p\<close> of identifiers follows registry-dependency
  edges, each element being a dependency of the known component before it.
\<close>

fun dep_path :: "registry \<Rightarrow> string list \<Rightarrow> bool" where
  "dep_path reg [] = False"
| "dep_path reg [k] = True"
| "dep_path reg (k # k' # ks) =
     ((case reg k of None \<Rightarrow> False | Some c \<Rightarrow> k' \<in> set (deps_of c)) \<and> dep_path reg (k' # ks))"

section \<open>Project configuration\<close>

text \<open>\<^verbatim>\<open>ProjectConfigSchema\<close> of \<^verbatim>\<open>project-analyzer.ts\<close>.\<close>

datatype framework = Svelte | SvelteKit

datatype styling = Tailwind | Css | Scss | NoStyling

datatype package_manager = Npm | Yarn | Pnpm | Bun

record project_paths =
  components :: string
  lib :: string
  src :: string

record ProjectConfig =
  framework :: framework
  typescript :: bool
  styling :: styling
  packageManager :: package_manager
  paths :: project_paths

section \<open>Project detector\<close>

text \<open>
  The detector only reads the directory tree. \<^verbatim>\<open>path.resolve\<close> yields an absolute,
  normalised path; such a path is the list of its segments, the filesystem root
  \<^verbatim>\<open>/\<close> being the empty list, so that \<^verbatim>\<open>dirname\<close> drops the last segment and
  \<^verbatim>\<open>join(dir, name)\<close> appends segments. \<open>entry\<close> is \<^verbatim>\<open>existsSync\<close> on such a path.
  \<open>sass_declared\<close> is the outcome of reading and parsing \<^verbatim>\<open>package.json\<close> in
  \<^verbatim>\<open>detectStyling\<close>: \<open>Inl\<close> the message of the error thrown by \<^verbatim>\<open>readFileSync\<close> or
  \<^verbatim>\<open>JSON.parse\<close>, \<open>Inr\<close> whether \<^verbatim>\<open>sass\<close> is among the declared dependencies.
\<close>

record project_tree =
  entry :: "string list \<Rightarrow> bool"
  sass_declared :: "string + bool"

definition root :: "string list" where
  "root = []"

definition dirname :: "string list \<Rightarrow> string list" where
  "dirname dir = butlast dir"

function findUp :: "(string list \<Rightarrow> bool) \<Rightarrow> string list \<Rightarrow> string list \<Rightarrow> string list option" where
  "findUp exists names dir =
     (if dir \<noteq> root
      then (case find (\<lambda>n. exists (dir @ [n])) names of
              Some n \<Rightarrow> Some (dir @ [n])
            | None \<Rightarrow> findUp exists names (dirname dir))
      else None)"
  by pat_completeness auto
termination
  by (relation "measure (\<lambda>(exists, names, dir). length dir)") (auto simp: root_def dirname_def)

record analysis =
  isValid :: bool
  config :: "ProjectConfig option"
  error :: "string option"

definition findSvelteConfig :: "project_tree \<Rightarrow> string list \<Rightarrow> string list option" where
  "findSvelteConfig tree cwd = findUp (entry tree) [''svelte.config.js'', ''svelte.config.ts''] cwd"

definition detectFramework :: "project_tree \<Rightarrow> string list \<Rightarrow> framework" where
  "detectFramework tree cwd =
     (let hasAppHtml = entry tree (cwd @ [''src'', ''app.html'']);
          hasRoutes = entry tree (cwd @ [''src'', ''routes''])
      in if hasAppHtml \<or> hasRoutes then SvelteKit else Svelte)"

definition hasTypeScript :: "project_tree \<Rightarrow> string list \<Rightarrow> bool" where
  "hasTypeScript tree cwd =
     (findUp (entry tree) [''tsconfig.json'', ''tsconfig.node.json''] cwd \<noteq> None)"

definition detectStyling :: "project_tree \<Rightarrow> string list \<Rightarrow> string + styling" where
  "detectStyling tree cwd =
     (let hasCss = entry tree (cwd @ [''src'', ''app.css'']) \<or> entry tree (cwd @ [''src'', ''global.css''])
      in if findUp (entry tree)
              [''tailwind.config.js'', ''tailwind.config.ts'', ''tailwind.config.cjs''] cwd \<noteq> None
         then Inr Tailwind
         else if entry tree (cwd @ [''package.json''])
         then (case sass_declared tree of
                 Inl msg \<Rightarrow> Inl msg
               | Inr sass \<Rightarrow> if sass then Inr Scss else Inr (if hasCss then Css else NoStyling))
         else Inr (if hasCss then Css else NoStyling))"

definition detectPackageManager :: "project_tree \<Rightarrow> string list \<Rightarrow> package_manager" where
  "detectPackageManager tree cwd =
     (if entry tree (cwd @ [''bun.lockb'']) then Bun
      else if entry tree (cwd @ [''pnpm-lock.yaml'']) then Pnpm
      else if entry tree (cwd @ [''yarn.lock'']) then Yarn
      else Npm)"

text \<open>A relative path as \<^verbatim>\<open>path.join\<close> prints it: no segment is \<^verbatim>\<open>.\<close>.\<close>

fun relative :: "string list \<Rightarrow> string" where
  "relative [] = ''.''"
| "relative [seg] = seg"
| "relative (seg # segs) = seg @ ''/'' @ relative segs"

definition determinePaths :: "project_tree \<Rightarrow> string list \<Rightarrow> project_paths" where
  "determinePaths tree cwd =
     (let srcPath = (if entry tree (cwd @ [''src'']) then [''src''] else []);
          libPath = (if entry tree (cwd @ srcPath @ [''lib'']) then srcPath @ [''lib''] else srcPath);
          componentsPath = libPath @ [''components'']
      in \<lparr>components = relative componentsPath, lib = relative libPath, src = relative srcPath\<rparr>)"

definition analyze :: "project_tree \<Rightarrow> string list \<Rightarrow> analysis" where
  "analyze tree cwd =
     (case findSvelteConfig tree cwd of
        None \<Rightarrow> \<lparr>isValid = False, config = None, error = Some ''No svelte.config.js found''\<rparr>
      | Some svelteConfig \<Rightarrow>
          (case detectStyling tree cwd of
             Inl msg \<Rightarrow> \<lparr>isValid = False, config = None, error = Some msg\<rparr>
           | Inr detected \<Rightarrow>
               \<lparr>isValid = True,
                config = Some \<lparr>framework = detectFramework tree cwd,
                                typescript = hasTypeScript tree cwd,
                                styling = detected,
                                packageManager = detectPackageManager tree cwd,
                                paths = determinePaths tree cwd\<rparr>,
                error = None\<rparr>))"

section \<open>Content adapter\<close>

text \<open>
  \<^verbatim>\<open>content.replace(/pat/g, rep)\<close> for a regular expression that is a literal, non-empty
  text: the scan goes from left to right, every match is replaced and the scan resumes
  after the match. None of the replacement texts of \<^verbatim>\<open>processFileContent\<close> holds a
  special replacement pattern of JavaScript (\<^verbatim>\<open>$$\<close>, \<^verbatim>\<open>$&\<close>, \<^verbatim>\<open>$1\<close>, ...), so each is
  inserted as it is written.
\<close>

function replaceAll :: "string \<Rightarrow> string \<Rightarrow> string \<Rightarrow> string" where
  "replaceAll pat rep [] = []"
| "replaceAll pat rep (c # s) =
     (if pat \<noteq> [] \<and> prefix pat (c # s)
      then rep @ replaceAll pat rep (drop (length pat - 1) s)
      else c # replaceAll pat rep s)"
  by pat_completeness auto
termination
  by (relation "measure (\<lambda>(pat, rep, s). length s)") auto

definition processFileContent :: "ProjectConfig \<Rightarrow> string \<Rightarrow> string" where
  "processFileContent cfg content0 =
     (let content1 = replaceAll ''$lib/'' ''$lib/'' content0;
          content2 = replaceAll ''$components/'' ''$lib/components/'' content1
      in if \<not> typescript cfg
         then replaceAll (''.ts'' @ [CHR 0x22]) (''.js'' @ [CHR 0x22])
                (replaceAll (''.ts'' @ [CHR 0x27]) (''.js'' @ [CHR 0x27]) content2)
         else content2)"

text \<open>
  Vocabulary for the adapter's properties: \<open>occurs_at pat s i\<close> says that the text \<open>pat\<close>
  stands in \<open>s\<close> at index \<open>i\<close>; \<open>contains pat s\<close> that it stands somewhere in \<open>s\<close>.
\<close>

definition occurs_at :: "string \<Rightarrow> string \<Rightarrow> nat \<Rightarrow> bool" where
  "occurs_at pat s i = prefix pat (drop i s)"

fun contains :: "string \<Rightarrow> string \<Rightarrow> bool" where
  "contains pat [] = (pat = [])"
| "contains pat (c # s) = (prefix pat (c # s) \<or> contains pat s)"

section \<open>Installer\<close>

subsection \<open>The filesystem\<close>

text \<open>
  The disk is a tree of directories and files together with the working directory of
  the process. A place on it is the list of the segments of an absolute, normalised
  path, the filesystem root being the empty list; \<open>nodes\<close> tells what is at a place. The
  working directory and the directories above it exist throughout (\<open>node_at\<close>).

  A path is a string. \<open>locate\<close> is the place it names, as \<^verbatim>\<open>path.resolve\<close> and the
  operating system find it: relative paths start from the working directory, empty
  segments and \<^verbatim>\<open>.\<close> are skipped, \<^verbatim>\<open>..\<close> steps up. \<open>dir_of\<close> is the place that
  \<^verbatim>\<open>dirname(path)\<close> names: the same walk without the last segment. (On the normalised
  paths that \<^verbatim>\<open>path.join\<close> returns, walking \<^verbatim>\<open>..\<close> textually is what the system does.)

  \<^verbatim>\<open>existsSync\<close> holds for a file and for a directory; a path with a trailing slash names
  a directory only. \<^verbatim>\<open>ensureDir\<close> is \<^verbatim>\<open>mkdir\<close> with \<^verbatim>\<open>recursive\<close>: it throws when the
  directory or a place above it is a file, and else makes every directory that is
  missing. \<^verbatim>\<open>writeFile\<close> of \<^verbatim>\<open>file-system.ts\<close> runs \<^verbatim>\<open>ensureDir(dirname(path))\<close> and then
  \<^verbatim>\<open>fs.writeFile\<close>, which throws on a directory; what \<^verbatim>\<open>ensureDir\<close> made stays when the
  second call throws. Both return the error thrown, if any, and the disk they leave.
  Symbolic links, permissions and failures of the device are outside the model.
\<close>

datatype node = File string | Dir

record file_system =
  cwd :: "string list"
  nodes :: "string list \<Rightarrow> node option"

fun split_on :: "char \<Rightarrow> string \<Rightarrow> string list" where
  "split_on sep [] = [[]]"
| "split_on sep (c # s) =
     (if c = sep then [] # split_on sep s
      else (case split_on sep s of [] \<Rightarrow> [[c]] | seg # segs \<Rightarrow> (c # seg) # segs))"

definition segments :: "string \<Rightarrow> string list" where
  "segments p = filter (\<lambda>seg. seg \<noteq> []) (split_on (CHR ''/'') p)"

definition enter :: "string list \<Rightarrow> string \<Rightarrow> string list" where
  "enter dir seg = (if seg = ''.'' then dir else if seg = ''..'' then butlast dir else dir @ [seg])"

definition walk :: "string list \<Rightarrow> string list \<Rightarrow> string list" where
  "walk start segs = foldl enter start segs"

definition absolute :: "string \<Rightarrow> bool" where
  "absolute p = (case p of [] \<Rightarrow> False | c # _ \<Rightarrow> c = CHR ''/'')"

definition trailing :: "string \<Rightarrow> bool" where
  "trailing p = (p \<noteq> [] \<and> last p = CHR ''/'')"

definition locate :: "file_system \<Rightarrow> string \<Rightarrow> string list" where
  "locate d p = walk (if absolute p then [] else cwd d) (segments p)"

definition dir_of :: "file_system \<Rightarrow> string \<Rightarrow> string list" where
  "dir_of d p = walk (if absolute p then [] else cwd d) (butlast (segments p))"

definition node_at :: "file_system \<Rightarrow> string list \<Rightarrow> node option" where
  "node_at d q = (if prefix q (cwd d) then Some Dir else nodes d q)"

definition is_file :: "file_system \<Rightarrow> string list \<Rightarrow> bool" where
  "is_file d q = (case node_at d q of Some (File s) \<Rightarrow> True | _ \<Rightarrow> False)"

definition existsSync :: "file_system \<Rightarrow> string \<Rightarrow> bool" where
  "existsSync d p =
     (p \<noteq> [] \<and>
      (case node_at d (locate d p) of
         None \<Rightarrow> False
       | Some Dir \<Rightarrow> True
       | Some (File s) \<Rightarrow> \<not> trailing p))"

definition ensureDir :: "file_system \<Rightarrow> string list \<Rightarrow> error option \<times> file_system" where
  "ensureDir d dir =
     (if is_file d dir then (Some (SystemError EEXIST), d)
      else if list_ex (is_file d) (prefixes dir) then (Some (SystemError ENOTDIR), d)
      else (None, d\<lparr>nodes := (\<lambda>q. if prefix q dir \<and> node_at d q = None then Some Dir
                                    else nodes d q)\<rparr>))"

definition writeFile :: "file_system \<Rightarrow> string \<Rightarrow> string \<Rightarrow> error option \<times> file_system" where
  "writeFile d p s =
     (case ensureDir d (dir_of d p) of
        (Some e, d') \<Rightarrow> (Some e, d')
      | (None, d') \<Rightarrow>
          if p = [] then (Some (SystemError ENOENT), d')
          else if node_at d' (locate d p) = Some Dir then (Some (SystemError EISDIR), d')
          else if trailing p
          then (Some (SystemError (if is_file d' (locate d p) then ENOTDIR else EISDIR)), d')
          else (None, d'\<lparr>nodes := (nodes d')(locate d p \<mapsto> File s)\<rparr>))"

text \<open>
  A disk is well formed when every place that holds something lies in directories.
  \<open>grows d d'\<close>: the disk \<open>d'\<close> has the working directory of \<open>d\<close>, every directory of
  \<open>d\<close> and something at every place where \<open>d\<close> has something.
\<close>

definition well_formed :: "file_system \<Rightarrow> bool" where
  "well_formed d \<longleftrightarrow>
     (\<forall>q. nodes d q \<noteq> None \<longrightarrow> (\<forall>r. strict_prefix r q \<longrightarrow> node_at d r = Some Dir))"

definition grows :: "file_system \<Rightarrow> file_system \<Rightarrow> bool" where
  "grows d d' \<longleftrightarrow>
     cwd d' = cwd d \<and>
     (\<forall>q. node_at d q = Some Dir \<longrightarrow> node_at d' q = Some Dir) \<and>
     (\<forall>q. node_at d q \<noteq> None \<longrightarrow> node_at d' q \<noteq> None)"

subsection \<open>The installer\<close>

text \<open>
  \<^verbatim>\<open>path.join\<close> of the Node library is a parameter \<open>join\<close> of the installer's
  functions. The installer's own mutable state is the set \<^verbatim>\<open>installedDeps\<close>, kept in
  insertion order.
\<close>

record InstallerOptions =
  config :: ProjectConfig
  registry :: registry
  force :: bool
  dryRun :: bool

record InstallResult =
  component :: string
  success :: bool
  files :: "string list option"
  dependencies :: "string list option"
  error :: "string option"

record installer_state =
  disk :: file_system
  installedDeps :: "string list"

definition add_dep :: "string list \<Rightarrow> string \<Rightarrow> string list" where
  "add_dep ds dep = (if dep \<in> set ds then ds else ds @ [dep])"

text \<open>The loop over \<^verbatim>\<open>component.files\<close> in \<^verbatim>\<open>installComponent\<close>; \<open>Inl\<close> is the throw.\<close>

fun install_files ::
  "InstallerOptions \<Rightarrow> (string \<Rightarrow> string \<Rightarrow> string \<Rightarrow> string) \<Rightarrow> string \<Rightarrow> Component \<Rightarrow>
     component_file list \<Rightarrow> string list \<Rightarrow> file_system \<Rightarrow> (error + string list) \<times> file_system"
where
  "install_files opts join targetPath c [] installedFiles d = (Inr installedFiles, d)"
| "install_files opts join targetPath c (file # rest) installedFiles d =
     (let filePath = join targetPath (Component.id c) (path file)
      in if existsSync d filePath \<and> \<not> force opts then (Inl (FileExists filePath), d)
         else if \<not> dryRun opts
         then (case writeFile d filePath (processFileContent (config opts) (content file)) of
                 (Some e, d') \<Rightarrow> (Inl e, d')
               | (None, d') \<Rightarrow>
                   install_files opts join targetPath c rest (installedFiles @ [filePath]) d')
         else install_files opts join targetPath c rest (installedFiles @ [filePath]) d)"

definition installComponent ::
  "InstallerOptions \<Rightarrow> (string \<Rightarrow> string \<Rightarrow> string \<Rightarrow> string) \<Rightarrow> Component \<Rightarrow> string \<Rightarrow>
     installer_state \<Rightarrow> (error + InstallResult) \<times> installer_state"
where
  "installComponent opts join c targetPath st =
     (case install_files opts join targetPath c (Component.files c) [] (disk st) of
        (Inl e, d) \<Rightarrow> (Inl e, st\<lparr>disk := d\<rparr>)
      | (Inr installedFiles, d) \<Rightarrow>
          let allDeps = Component.dependencies c
                          @ (case devDependencies c of None \<Rightarrow> [] | Some ds \<Rightarrow> ds)
          in (Inr \<lparr>component = name c, success = True, files = Some installedFiles,
                   dependencies = Some allDeps, error = None\<rparr>,
              st\<lparr>disk := d, installedDeps := foldl add_dep (installedDeps st) allDeps\<rparr>))"

text \<open>The body of the loop of \<^verbatim>\<open>installComponents\<close>: the \<^verbatim>\<open>try\<close> and its \<^verbatim>\<open>catch\<close>.\<close>

definition try_install ::
  "InstallerOptions \<Rightarrow> (string \<Rightarrow> string \<Rightarrow> string \<Rightarrow> string) \<Rightarrow> Component \<Rightarrow> string \<Rightarrow>
     installer_state \<Rightarrow> InstallResult \<times> installer_state"
where
  "try_install opts join c targetPath st =
     (case installComponent opts join c targetPath st of
        (Inr result, st') \<Rightarrow> (result, st')
      | (Inl e, st') \<Rightarrow>
          (\<lparr>component = name c, success = False, files = None, dependencies = None,
            error = Some (message e)\<rparr>, st'))"

fun install_each ::
  "InstallerOptions \<Rightarrow> (string \<Rightarrow> string \<Rightarrow> string \<Rightarrow> string) \<Rightarrow> string \<Rightarrow> Component list \<Rightarrow>
     InstallResult list \<Rightarrow> installer_state \<Rightarrow> InstallResult list \<times> installer_state"
where
  "install_each opts join targetPath [] results st = (results, st)"
| "install_each opts join targetPath (c # rest) results st =
     (case try_install opts join c targetPath st of
        (result, st') \<Rightarrow> install_each opts join targetPath rest (results @ [result]) st')"

definition installComponents ::
  "InstallerOptions \<Rightarrow> (string \<Rightarrow> string \<Rightarrow> string \<Rightarrow> string) \<Rightarrow> string list \<Rightarrow> string \<Rightarrow>
     installer_state \<Rightarrow> ((error + InstallResult list) \<times> installer_state) option"
where
  "installComponents opts join componentIds targetPath st =
     (case resolveComponentsWithDependencies (registry opts) componentIds of
        None \<Rightarrow> None
      | Some (Inl e) \<Rightarrow> Some (Inl e, st)
      | Some (Inr allComponents) \<Rightarrow>
          (case install_each opts join targetPath allComponents [] st of
             (results, st') \<Rightarrow> Some (Inr results, st')))"

text \<open>Vocabulary for the installer's properties: the target path of a file.\<close>

definition target ::
  "(string \<Rightarrow> string \<Rightarrow> string \<Rightarrow> string) \<Rightarrow> string \<Rightarrow> Component \<Rightarrow> component_file \<Rightarrow> string" where
  "target join targetPath c file = join targetPath (Component.id c) (path file)"

section \<open>Example projects\<close>

text \<open>
  Concrete registries, configurations and disks on which the theorems below are run.
  \<open>demo_registry\<close> is acyclic with a diamond; \<open>cycle_registry\<close> holds two components that
  depend on each other; \<open>broken_registry\<close> lacks a dependency; \<open>twice\<close> lists one file
  path two times; \<open>nested\<close> lists a file, a file below it and a file that is on the
  disk \<open>used_disk\<close> already; \<open>dirc\<close> lists a file in a directory and then that
  directory; \<open>deep\<close> lists a file and then a file two levels below it. \<open>slash_join\<close> is \<^verbatim>\<open>path.join\<close> on arguments that are
  already normalised relative paths.
\<close>

definition ts_config :: ProjectConfig where
  "ts_config = \<lparr>framework = SvelteKit, typescript = True, styling = Tailwind,
     packageManager = Npm,
     paths = \<lparr>components = ''src/lib/components'', lib = ''src/lib'', src = ''src''\<rparr>\<rparr>"

definition js_config :: ProjectConfig where
  "js_config = ts_config\<lparr>typescript := False\<rparr>"

definition alias_import :: string where
  \<open>alias_import = ''import B from '$components/b.ts';''\<close>

definition two_imports :: string where
  \<open>two_imports = ''import a from './a.ts'; import b from "./b.ts";''\<close>

definition simple :: "string \<Rightarrow> string list \<Rightarrow> string list \<Rightarrow> string list \<Rightarrow> Component" where
  "simple k ds rds fs =
     \<lparr>id = k, name = k, description = [], category = ''ui'', dependencies = ds,
      devDependencies = None, registryDependencies = Some rds,
      files = map (\<lambda>p. \<lparr>path = p, content = ''<'' @ k @ ''/>'', type = Component_type\<rparr>) fs\<rparr>"

definition button_descriptor :: Component where
  "button_descriptor = \<lparr>id = ''button'', name = ''Button'', description = ''A button component'',
     category = ''form'', dependencies = [''clsx''], devDependencies = None,
     registryDependencies = None,
     files = [\<lparr>path = ''button.svelte'', content = ''<button>Click me</button>'',
               type = Component_type\<rparr>]\<rparr>"

definition card_descriptor :: Component where
  "card_descriptor = \<lparr>id = ''card'', name = ''Card'', description = ''A card'',
     category = ''layout'', dependencies = [''clsx''], devDependencies = Some [''sass''],
     registryDependencies = Some [''button''],
     files = [\<lparr>path = ''card.svelte'', content = ''<div/>'', type = Component_type\<rparr>,
              \<lparr>path = ''card.css'', content = ''div {}'', type = Style_type\<rparr>,
              \<lparr>path = ''index.ts'', content = ''export {}'', type = Util_type\<rparr>]\<rparr>"

definition page_descriptor :: Component where
  "page_descriptor = simple ''page'' [] [''card'', ''form''] [''page.svelte'']"

definition form_descriptor :: Component where
  "form_descriptor = simple ''form'' [''zod''] [''button'', ''input''] [''form.svelte'']"

definition input_descriptor :: Component where
  "input_descriptor = simple ''input'' [] [] [''input.svelte'']"

definition demo_registry :: registry where
  "demo_registry = map_of
     [(''page'', page_descriptor),
      (''form'', form_descriptor),
      (''card'', card_descriptor),
      (''button'', button_descriptor),
      (''input'', input_descriptor)]"

definition demo_closure :: "Component list" where
  "demo_closure =
     [page_descriptor, form_descriptor, card_descriptor, button_descriptor, input_descriptor]"

definition a_descriptor :: Component where
  "a_descriptor = simple ''a'' [] [''b''] [''a.svelte'']"

definition b_descriptor :: Component where
  "b_descriptor = simple ''b'' [] [''a''] [''b.svelte'']"

definition cycle_registry :: registry where
  "cycle_registry = map_of [(''a'', a_descriptor), (''b'', b_descriptor)]"

definition broken_registry :: registry where
  "broken_registry = map_of [(''card'', card_descriptor)]"

definition twice :: Component where
  "twice = simple ''twice'' [] [] [''x.svelte'', ''x.svelte'']"

definition twice_registry :: registry where
  "twice_registry = map_of [(''twice'', twice)]"

definition slash_join :: "string \<Rightarrow> string \<Rightarrow> string \<Rightarrow> string" where
  "slash_join a b c = a @ ''/'' @ b @ ''/'' @ c"

definition demo_options :: "registry \<Rightarrow> bool \<Rightarrow> InstallerOptions" where
  "demo_options reg dry = \<lparr>config = ts_config, registry = reg, force = False, dryRun = dry\<rparr>"

definition empty_state :: installer_state where
  "empty_state = \<lparr>disk = \<lparr>cwd = [''home'', ''app''], nodes = Map.empty\<rparr>, installedDeps = []\<rparr>"

definition used_disk :: file_system where
  "used_disk = \<lparr>cwd = [''home'', ''app''],
     nodes = [[''home'', ''app'', ''ui''] \<mapsto> Dir,
              [''home'', ''app'', ''ui'', ''card''] \<mapsto> Dir,
              [''home'', ''app'', ''ui'', ''nested''] \<mapsto> Dir,
              [''home'', ''app'', ''ui'', ''card'', ''card.css''] \<mapsto> File ''kept'',
              [''home'', ''app'', ''ui'', ''nested'', ''card.css''] \<mapsto> File ''kept'']\<rparr>"

definition used_state :: installer_state where
  "used_state = \<lparr>disk = used_disk, installedDeps = []\<rparr>"

definition nested :: Component where
  "nested = simple ''nested'' [] [] [''sub'', ''sub/x.svelte'', ''card.css'']"

definition dirc :: Component where
  "dirc = simple ''dirc'' [] [] [''sub/x.svelte'', ''sub'']"

definition deep :: Component where
  "deep = simple ''deep'' [] [] [''sub'', ''sub/a/x.svelte'']"

definition root_only_tree :: project_tree where
  "root_only_tree = \<lparr>entry = (\<lambda>p. p = [''svelte.config.js'']), sass_declared = Inr False\<rparr>"

section \<open>The resolver terminates and visits in breadth-first order\<close>

lemma set_first_seen [simp]: "set (first_seen xs) = set xs"
  by (induction xs) auto

lemma distinct_first_seen [simp]: "distinct (first_seen xs)"
  by (induction xs) (auto simp: distinct_removeAll)

lemma filter_first_seen: "filter P (first_seen xs) = first_seen (filter P xs)"
proof (induction xs)
  case Nil
  show ?case by simp
next
  case (Cons a xs)
  have "filter P (removeAll a (first_seen xs)) = removeAll a (filter P (first_seen xs))"
    by (simp add: removeAll_filter_not_eq conj_commute)
  also have "\<dots> = removeAll a (first_seen (filter P xs))"
    by (simp add: Cons.IH)
  finally have eq: "filter P (removeAll a (first_seen xs)) = removeAll a (first_seen (filter P xs))" .
  show ?case
  proof (cases "P a")
    case True
    with eq show ?thesis by simp
  next
    case False
    then have "a \<notin> set (first_seen (filter P xs))" by simp
    then have "removeAll a (first_seen (filter P xs)) = first_seen (filter P xs)"
      by (rule removeAll_id)
    with eq False show ?thesis by simp
  qed
qed

lemma first_seen_append:
  "first_seen (xs @ ys) = first_seen xs @ filter (\<lambda>y. y \<notin> set xs) (first_seen ys)"
proof (induction xs)
  case Nil
  show ?case by simp
next
  case (Cons x xs)
  have "removeAll x (filter (\<lambda>y. y \<notin> set xs) (first_seen ys))
          = filter (\<lambda>y. y \<notin> set (x # xs)) (first_seen ys)"
    by (auto simp: removeAll_filter_not_eq intro: filter_cong)
  with Cons show ?case by simp
qed

lemma resolve_loop_rule:
  assumes fin: "finite S"
    and init: "I resolved toResolve tr"
    and inS: "\<And>R k Q T c. I R (k # Q) T \<Longrightarrow> \<not> has R k \<Longrightarrow> reg k = Some c \<Longrightarrow> k \<in> S"
    and skip: "\<And>R k Q T. I R (k # Q) T \<Longrightarrow> has R k \<Longrightarrow> I R Q T"
    and fetch: "\<And>R k Q T c. I R (k # Q) T \<Longrightarrow> \<not> has R k \<Longrightarrow> reg k = Some c \<Longrightarrow>
        I (R @ [(k, c)]) (Q @ filter (\<lambda>d. \<not> has (R @ [(k, c)]) d) (deps_of c))
          (T @ Fetch k # map Push (filter (\<lambda>d. \<not> has (R @ [(k, c)]) d) (deps_of c)))"
  shows "\<exists>res T'. resolve_loop reg resolved toResolve tr = Some (res, T') \<and>
     (case res of
        Inr R' \<Rightarrow> I R' [] T'
      | Inl e \<Rightarrow> \<exists>R k Q T. I R (k # Q) T \<and> \<not> has R k \<and> reg k = None \<and>
                   e = ComponentNotFound k \<and> T' = T @ [Fetch k])"
  using init
proof (induction "card (S - set (map fst resolved))" arbitrary: resolved toResolve tr
    rule: less_induct)
  case less
  show ?case using less.prems
  proof (induction toResolve arbitrary: tr)
    case Nil
    then show ?case by (subst resolve_loop.simps) simp
  next
    case (Cons k Q)
    show ?case
    proof (cases "has resolved k")
      case True
      from Cons.IH [OF skip [OF Cons.prems True]] True show ?thesis
        by (subst resolve_loop.simps) simp
    next
      case nh: False
      show ?thesis
      proof (cases "reg k")
        case None
        with nh Cons.prems show ?thesis
          by (subst resolve_loop.simps) (auto simp: getComponent_def)
      next
        case (Some c)
        let ?R = "resolved @ [(k, c)]"
        have "k \<in> S - set (map fst resolved)"
          using nh inS [OF Cons.prems nh Some] by (auto simp: has_def)
        moreover have "S - set (map fst ?R) = (S - set (map fst resolved)) - {k}"
          by auto
        ultimately have "card (S - set (map fst ?R)) < card (S - set (map fst resolved))"
          using fin card_Diff1_less [of "S - set (map fst resolved)" k] by simp
        from less.hyps [OF this fetch [OF Cons.prems nh Some]] nh Some show ?thesis
          by (subst resolve_loop.simps) (simp add: getComponent_def Let_def)
      qed
    qed
  qed
qed

lemma fetched_append [simp]: "fetched (T @ T') = fetched T @ fetched T'"
  by (induction T rule: fetched.induct) auto

lemma fetched_map_Push [simp]: "fetched (map Push xs) = []"
  by (induction xs) auto

lemma no_revisit_map_Push [simp]: "no_revisit seen (map Push xs) \<longleftrightarrow> set xs \<inter> set seen = {}"
  by (induction xs) auto

lemma no_revisit_append:
  "no_revisit seen (T @ T') \<longleftrightarrow> no_revisit seen T \<and> no_revisit (seen @ fetched T) T'"
  by (induction seen T rule: no_revisit.induct) auto

lemma resolver_inv_init: "resolver_inv reg ids [] ids []"
  by (auto simp: resolver_inv_def intro: reachable.requested)

lemma resolver_inv_skip:
  assumes "resolver_inv reg ids R (k # Q) T" and "has R k"
  shows "resolver_inv reg ids R Q T"
proof -
  have "filter (\<lambda>x. x \<notin> set (map fst R)) (first_seen (k # Q))
          = filter (\<lambda>x. x \<notin> set (map fst R)) (first_seen Q)"
    using assms(2) by (auto simp: has_def removeAll_filter_not_eq intro: filter_cong)
  with assms(1) show ?thesis
    by (simp add: resolver_inv_def)
qed

lemma resolver_inv_fetch:
  assumes inv: "resolver_inv reg ids R (k # Q) T" and nh: "\<not> has R k" and rk: "reg k = Some c"
  defines "R' \<equiv> R @ [(k, c)]"
  defines "new \<equiv> filter (\<lambda>d. \<not> has R' d) (deps_of c)"
  shows "resolver_inv reg ids R' (Q @ new) (T @ Fetch k # map Push new)"
proof -
  let ?K = "map fst R" and ?K' = "map fst R'"
  have K': "?K' = ?K @ [k]" by (simp add: R'_def)
  have knot: "k \<notin> set ?K" using nh by (simp add: has_def)
  from inv have reg: "\<forall>(k, c) \<in> set R. reg k = Some c"
    and dist: "distinct ?K"
    and reach: "set ?K \<union> set (k # Q) \<subseteq> reachable reg ids"
    and order: "?K @ filter (\<lambda>x. x \<notin> set ?K) (first_seen (k # Q))
                  = first_seen (ids @ concat (map (deps_of \<circ> snd) R))"
    and tr: "no_revisit [] T" "fetched T = ?K"
    by (auto simp: resolver_inv_def)
  have 1: "\<forall>(k, c) \<in> set R'. reg k = Some c"
    using reg rk by (auto simp: R'_def)
  have 2: "distinct ?K'" using dist knot by (simp add: K')
  have kr: "k \<in> reachable reg ids" using reach by simp
  have "set new \<subseteq> reachable reg ids"
    using reachable.dependency [OF kr rk] by (auto simp: new_def)
  then have 3: "set ?K' \<union> set (Q @ new) \<subseteq> reachable reg ids"
    using reach by (auto simp: K')
  let ?D = "ids @ concat (map (deps_of \<circ> snd) R)"
  have setD: "set ?D = set ?K' \<union> set Q"
  proof -
    have "set ?D = set (first_seen ?D)" by simp
    also have "\<dots> = set (?K @ filter (\<lambda>x. x \<notin> set ?K) (first_seen (k # Q)))"
      by (simp only: order)
    also have "\<dots> = set ?K' \<union> set Q"
      by (auto simp: K')
    finally show ?thesis .
  qed
  have headk: "filter (\<lambda>x. x \<notin> set ?K) (first_seen (k # Q))
                = k # filter (\<lambda>x. x \<notin> set ?K') (first_seen Q)"
    using knot by (auto simp: K' removeAll_filter_not_eq intro: filter_cong)
  have "first_seen (ids @ concat (map (deps_of \<circ> snd) R'))
          = first_seen (?D @ deps_of c)"
    by (simp add: R'_def)
  also have "\<dots> = first_seen ?D @ filter (\<lambda>y. y \<notin> set ?D) (first_seen (deps_of c))"
    by (rule first_seen_append)
  also have "\<dots> = ?K' @ filter (\<lambda>x. x \<notin> set ?K') (first_seen Q)
                     @ filter (\<lambda>y. y \<notin> set ?D) (first_seen (deps_of c))"
    using order headk by (simp add: K')
  also have "filter (\<lambda>y. y \<notin> set ?D) (first_seen (deps_of c))
               = filter (\<lambda>x. x \<notin> set ?K') (filter (\<lambda>y. y \<notin> set Q) (first_seen new))"
    unfolding setD new_def filter_first_seen [symmetric]
    by (auto simp: has_def intro: filter_cong)
  finally have E: "first_seen (ids @ concat (map (deps_of \<circ> snd) R'))
      = ?K' @ filter (\<lambda>x. x \<notin> set ?K') (first_seen Q)
          @ filter (\<lambda>x. x \<notin> set ?K') (filter (\<lambda>y. y \<notin> set Q) (first_seen new))" .
  have 4: "?K' @ filter (\<lambda>x. x \<notin> set ?K') (first_seen (Q @ new))
             = first_seen (ids @ concat (map (deps_of \<circ> snd) R'))"
    unfolding E by (simp add: first_seen_append)
  have "set new \<inter> set ?K' = {}"
    by (auto simp: new_def has_def)
  then have 5: "no_revisit [] (T @ Fetch k # map Push new)"
    using tr knot by (simp add: no_revisit_append K')
  have 6: "fetched (T @ Fetch k # map Push new) = ?K'"
    using tr by (simp add: K')
  from 1 2 3 4 5 6 show ?thesis
    unfolding resolver_inv_def by blast
qed

lemma resolve_loop_inv:
  assumes "finite (reachable reg ids \<inter> dom reg)"
  shows "\<exists>res T. resolve_loop reg [] ids [] = Some (res, T) \<and>
      (case res of
         Inr R \<Rightarrow> resolver_inv reg ids R [] T
       | Inl e \<Rightarrow> \<exists>R k Q T0. resolver_inv reg ids R (k # Q) T0 \<and> \<not> has R k \<and> reg k = None \<and>
                    e = ComponentNotFound k \<and> T = T0 @ [Fetch k])"
proof (rule resolve_loop_rule [where I = "resolver_inv reg ids",
        OF assms resolver_inv_init _ resolver_inv_skip resolver_inv_fetch])
  fix R k Q T c
  assume "resolver_inv reg ids R (k # Q) T" and "reg k = Some c"
  then show "k \<in> reachable reg ids \<inter> dom reg"
    unfolding resolver_inv_def by auto
qed

lemma resolver_inv_final:
  assumes inv: "resolver_inv reg ids R [] T"
  shows "distinct (map fst R)"
    and "set (map fst R) = reachable reg ids"
    and "map reg (map fst R) = map Some (map snd R)"
    and "map fst R = first_seen (ids @ concat (map deps_of (map snd R)))"
    and "no_revisit [] T"
    and "fetched T = map fst R"
proof -
  from inv have reg: "\<forall>(k, c) \<in> set R. reg k = Some c"
    by (simp add: resolver_inv_def)
  from inv have dist: "distinct (map fst R)"
    by (simp add: resolver_inv_def)
  from inv have reach: "set (map fst R) \<subseteq> reachable reg ids"
    unfolding resolver_inv_def by blast
  from inv have order: "map fst R = first_seen (ids @ concat (map (deps_of \<circ> snd) R))"
    by (simp add: resolver_inv_def)
  from inv have tr: "no_revisit [] T" "fetched T = map fst R"
    by (simp_all add: resolver_inv_def)
  show "distinct (map fst R)" by (rule dist)
  show "no_revisit [] T" by (rule tr)
  show "fetched T = map fst R" by (rule tr)
  show o: "map fst R = first_seen (ids @ concat (map deps_of (map snd R)))"
    using order by simp
  show "map reg (map fst R) = map Some (map snd R)"
    using reg by (induction R) auto
  have "k \<in> set (map fst R)" if "k \<in> reachable reg ids" for k
    using that
  proof (induction rule: reachable.induct)
    case (requested k)
    then have "k \<in> set (first_seen (ids @ concat (map deps_of (map snd R))))" by simp
    then show ?case by (simp only: o [symmetric])
  next
    case (dependency k c d)
    then obtain c' where "(k, c') \<in> set R" by auto
    with reg dependency.hyps(2) have "(k, c) \<in> set R" by auto
    with dependency.hyps(3) have "d \<in> set (concat (map deps_of (map snd R)))"
      by force
    then have "d \<in> set (first_seen (ids @ concat (map deps_of (map snd R))))" by simp
    then show ?case by (simp only: o [symmetric])
  qed
  with reach show "set (map fst R) = reachable reg ids" by auto
qed

lemma resolve_trace_cases:
  assumes fin: "finite (reachable reg ids \<inter> dom reg)"
  obtains (resolved) cs tr where "resolve_trace reg ids = Some (Inr cs, tr)"
      and "no_revisit [] tr" and "distinct (fetched tr)"
      and "set (fetched tr) = reachable reg ids"
      and "map reg (fetched tr) = map Some cs"
      and "fetched tr = first_seen (ids @ concat (map deps_of cs))"
    | (not_found) k tr where "resolve_trace reg ids = Some (Inl (ComponentNotFound k), tr)"
      and "no_revisit [] tr" and "k \<in> reachable reg ids" and "reg k = None"
proof -
  from resolve_loop_inv [OF fin] obtain res T
    where run: "resolve_loop reg [] ids [] = Some (res, T)"
      and post: "case res of
         Inr R \<Rightarrow> resolver_inv reg ids R [] T
       | Inl e \<Rightarrow> \<exists>R k Q T0. resolver_inv reg ids R (k # Q) T0 \<and> \<not> has R k \<and> reg k = None \<and>
                    e = ComponentNotFound k \<and> T = T0 @ [Fetch k]"
    by blast
  show thesis
  proof (cases res)
    case (Inr R)
    with post have inv: "resolver_inv reg ids R [] T" by simp
    note f = resolver_inv_final [OF inv]
    have "resolve_trace reg ids = Some (Inr (map snd R), T)"
      using run Inr by (simp add: resolve_trace_def)
    then show thesis
      using f by (intro resolved [of "map snd R" T]) simp_all
  next
    case (Inl e)
    with post obtain R k Q T0 where inv: "resolver_inv reg ids R (k # Q) T0"
      and nh: "\<not> has R k" and none: "reg k = None"
      and e: "e = ComponentNotFound k" and T: "T = T0 @ [Fetch k]"
      by auto
    have "resolve_trace reg ids = Some (Inl (ComponentNotFound k), T)"
      using run Inl e by (simp add: resolve_trace_def)
    moreover have "no_revisit [] T"
      using inv nh by (simp add: T no_revisit_append resolver_inv_def has_def)
    moreover have "k \<in> reachable reg ids"
      using inv by (simp add: resolver_inv_def)
    ultimately show thesis using none by (rule not_found)
  qed
qed

subsection \<open>An unknown reachable identifier is always found\<close>

lemma dep_path_suffix: "dep_path reg (p1 @ x # p2) \<Longrightarrow> dep_path reg (x # p2)"
proof (induction p1)
  case Nil
  then show ?case by simp
next
  case (Cons a p1)
  then show ?case by (cases p1) auto
qed

lemma dep_path_snoc:
  "dep_path reg p \<Longrightarrow> reg (last p) = Some c \<Longrightarrow> d \<in> set (deps_of c) \<Longrightarrow> dep_path reg (p @ [d])"
proof (induction reg p rule: dep_path.induct)
  case (1 reg)
  then show ?case by simp
next
  case (2 reg k)
  then show ?case by simp
next
  case (3 reg k k' ks)
  then show ?case by simp
qed

lemma reachable_path:
  "u \<in> reachable reg ids \<Longrightarrow> \<exists>p. dep_path reg p \<and> hd p \<in> set ids \<and> last p = u"
proof (induction rule: reachable.induct)
  case (requested k)
  then have "dep_path reg [k] \<and> hd [k] \<in> set ids \<and> last [k] = k" by simp
  then show ?case by blast
next
  case (dependency k c d)
  then obtain p where p: "dep_path reg p" "hd p \<in> set ids" "last p = k" by blast
  then have ne: "p \<noteq> []" by auto
  from dep_path_snoc [OF p(1)] p(3) dependency.hyps(2,3) have "dep_path reg (p @ [d])" by simp
  moreover have "hd (p @ [d]) \<in> set ids" "last (p @ [d]) = d" using p(2) ne by simp_all
  ultimately show ?case by blast
qed

lemma resolve_loop_fails:
  "dep_path reg p \<Longrightarrow> reg (last p) = None \<Longrightarrow> i < length Q \<Longrightarrow> Q ! i = hd p
     \<Longrightarrow> set p \<inter> set (map fst R) = {} \<Longrightarrow> set Q \<subseteq> reachable reg ids
     \<Longrightarrow> \<exists>k T'. resolve_loop reg R Q T = Some (Inl (ComponentNotFound k), T') \<and> reg k = None \<and>
           k \<in> reachable reg ids"
proof (induction "length p" arbitrary: p i Q R T rule: less_induct)
  case less
  note outer = less.hyps
  note path = less.prems(1) and last = less.prems(2)
  from path have pne: "p \<noteq> []" by auto
  have jump: "\<exists>k T'. resolve_loop reg R2 Q2 T2 = Some (Inl (ComponentNotFound k), T') \<and> reg k = None \<and>
           k \<in> reachable reg ids"
    if x: "x \<in> set p" and c: "reg x = Some c" and dis: "set p \<inter> set (map fst R) = {}"
      and R2: "R2 = R @ [(x, c)]"
      and Q2: "set (filter (\<lambda>d. \<not> has R2 d) (deps_of c)) \<subseteq> set Q2"
      and reach: "set Q2 \<subseteq> reachable reg ids"
    for x c R R2 Q2 T2
  proof -
    from split_list_last [OF x] obtain p1 p2 where p: "p = p1 @ x # p2" and nx: "x \<notin> set p2"
      by blast
    have "p2 \<noteq> []"
    proof
      assume "p2 = []"
      with p have "last p = x" by simp
      with last c show False by simp
    qed
    then obtain y p3 where p2: "p2 = y # p3" by (cases p2) auto
    from path have "dep_path reg (x # p2)" unfolding p by (rule dep_path_suffix)
    with c have y: "y \<in> set (deps_of c)" and path2: "dep_path reg p2"
      by (simp_all add: p2)
    have dis2: "set p2 \<inter> set (map fst R2) = {}"
      using dis nx by (auto simp: p R2)
    then have "\<not> has R2 y" by (auto simp: has_def p2)
    with y Q2 have "y \<in> set Q2" by auto
    then obtain j where j: "j < length Q2" "Q2 ! j = hd p2"
      by (auto simp: in_set_conv_nth p2)
    have "last p2 = last p" using \<open>p2 \<noteq> []\<close> by (simp add: p)
    with last have last2: "reg (last p2) = None" by simp
    have "length p2 < length p" by (simp add: p)
    from outer [OF this path2 last2 j dis2 reach] show ?thesis .
  qed
  show ?case using less.prems(3-6)
  proof (induction i arbitrary: Q R T)
    case 0
    then obtain x Q' where Q: "Q = x # Q'" by (cases Q) auto
    with 0 pne have x: "x \<in> set p" by (cases p) auto
    with 0 have nh: "\<not> has R x" by (auto simp: has_def)
    from 0 have xr: "x \<in> reachable reg ids" by (auto simp: Q)
    show ?case
    proof (cases "reg x")
      case None
      with nh xr show ?thesis
        by (subst resolve_loop.simps) (simp add: Q getComponent_def)
    next
      case (Some c)
      let ?R2 = "R @ [(x, c)]"
      let ?new = "filter (\<lambda>d. \<not> has ?R2 d) (deps_of c)"
      have "set (Q' @ ?new) \<subseteq> reachable reg ids"
        using 0 reachable.dependency [OF xr Some] by (auto simp: Q)
      from jump [OF x Some "0.prems"(3) refl _ this] nh Some show ?thesis
        by (subst resolve_loop.simps) (simp add: Q getComponent_def Let_def)
    qed
  next
    case (Suc i)
    then obtain x Q' where Q: "Q = x # Q'" by (cases Q) auto
    from Suc.prems have i: "i < length Q'" "Q' ! i = hd p" by (simp_all add: Q)
    from Suc.prems have xr: "x \<in> reachable reg ids" and Q'r: "set Q' \<subseteq> reachable reg ids"
      by (auto simp: Q)
    show ?case
    proof (cases "has R x")
      case True
      from Suc.IH [OF i Suc.prems(3) Q'r] True show ?thesis
        by (subst resolve_loop.simps) (simp add: Q)
    next
      case nh: False
      show ?thesis
      proof (cases "reg x")
        case None
        with nh xr show ?thesis
          by (subst resolve_loop.simps) (simp add: Q getComponent_def)
      next
        case (Some c)
        let ?R2 = "R @ [(x, c)]"
        let ?new = "filter (\<lambda>d. \<not> has ?R2 d) (deps_of c)"
        have reach: "set (Q' @ ?new) \<subseteq> reachable reg ids"
          using Q'r reachable.dependency [OF xr Some] by auto
        have "\<exists>k T'. resolve_loop reg ?R2 (Q' @ ?new) (T @ Fetch x # map Push ?new)
                  = Some (Inl (ComponentNotFound k), T') \<and> reg k = None \<and> k \<in> reachable reg ids"
        proof (cases "x \<in> set p")
          case True
          from jump [OF True Some Suc.prems(3) refl _ reach] show ?thesis by simp
        next
          case False
          have "i < length (Q' @ ?new)" "(Q' @ ?new) ! i = hd p"
            using i by (simp_all add: nth_append)
          moreover have "set p \<inter> set (map fst ?R2) = {}"
            using Suc.prems(3) False by auto
          ultimately show ?thesis
            using Suc.IH reach by blast
        qed
        with nh Some show ?thesis
          by (subst resolve_loop.simps) (simp add: Q getComponent_def Let_def)
      qed
    qed
  qed
qed

lemma resolve_not_found:
  assumes "u \<in> reachable reg ids" and "reg u = None"
  shows "\<exists>k. resolveComponentsWithDependencies reg ids = Some (Inl (ComponentNotFound k)) \<and>
           reg k = None \<and> k \<in> reachable reg ids"
proof -
  from reachable_path [OF assms(1)] obtain p
    where p: "dep_path reg p" "hd p \<in> set ids" "last p = u" by blast
  from p(2) obtain i where i: "i < length ids" "ids ! i = hd p"
    by (auto simp: in_set_conv_nth)
  have "set ids \<subseteq> reachable reg ids" by (auto intro: reachable.requested)
  from resolve_loop_fails [OF p(1) _ i _ this, of "[]" "[]"] p(3) assms(2)
  obtain k T' where "resolve_loop reg [] ids [] = Some (Inl (ComponentNotFound k), T')"
    "reg k = None" "k \<in> reachable reg ids"
    by auto
  then show ?thesis
    by (auto simp: resolveComponentsWithDependencies_def resolve_trace_def)
qed

section \<open>The content adapter\<close>

lemma replaceAll_no_match: "\<not> contains pat s \<Longrightarrow> replaceAll pat rep s = s"
  by (induction s) auto

lemma replaceAll_same_aux: "rep = pat \<Longrightarrow> replaceAll pat rep s = s"
proof (induction pat rep s rule: replaceAll.induct)
  case (1 pat rep)
  show ?case by simp
next
  case (2 pat rep c s)
  show ?case
  proof (cases "pat \<noteq> [] \<and> prefix pat (c # s)")
    case True
    then obtain zs where zs: "c # s = pat @ zs" by (auto simp: prefix_def)
    with True have d: "drop (length pat - 1) s = zs"
      by (cases pat) auto
    have "replaceAll pat rep (c # s) = rep @ replaceAll pat rep (drop (length pat - 1) s)"
      using True by simp
    also have "\<dots> = pat @ zs"
      using 2 True d by simp
    finally show ?thesis by (simp add: zs)
  next
    case False
    with 2 show ?thesis by auto
  qed
qed

lemma replaceAll_same: "replaceAll pat pat s = s"
  by (simp add: replaceAll_same_aux)

lemma prefix_replaceAll:
  assumes "rep \<noteq> []" and "hd rep = hd pat"
  shows "hd pat \<notin> set q \<Longrightarrow> prefix q (replaceAll pat rep t) \<Longrightarrow> prefix q t"
proof (induction q arbitrary: t)
  case Nil
  show ?case by simp
next
  case (Cons a q)
  from Cons.prems(2) obtain c s where t: "t = c # s"
    by (cases t) auto
  show ?case
  proof (cases "pat \<noteq> [] \<and> prefix pat (c # s)")
    case True
    with Cons.prems(2) assms have "a = hd pat"
      by (cases rep) (auto simp: t)
    with Cons.prems(1) show ?thesis by simp
  next
    case False
    with Cons.prems(2) have "a = c" and "prefix q (replaceAll pat rep s)"
      by (auto simp: t)
    with Cons.IH [of s] Cons.prems(1) show ?thesis by (simp add: t)
  qed
qed

lemma contains_append:
  "contains pat (u @ v) \<Longrightarrow> contains pat v \<or> (\<exists>i<length u. prefix pat (drop i u @ v))"
proof (induction u)
  case Nil
  then show ?case by simp
next
  case (Cons a u)
  from Cons.prems have "prefix pat (a # u @ v) \<or> contains pat (u @ v)" by simp
  then show ?case
  proof
    assume "prefix pat (a # u @ v)"
    then have "prefix pat (drop 0 (a # u) @ v)" by simp
    then show ?thesis by blast
  next
    assume "contains pat (u @ v)"
    from Cons.IH [OF this] show ?thesis
    proof
      assume "contains pat v" then show ?thesis ..
    next
      assume "\<exists>i<length u. prefix pat (drop i u @ v)"
      then obtain i where "i < length u" "prefix pat (drop i u @ v)" by blast
      then have "Suc i < length (a # u)" "prefix pat (drop (Suc i) (a # u) @ v)" by simp_all
      then show ?thesis by blast
    qed
  qed
qed

lemma replaceAll_removes:
  assumes rep: "rep \<noteq> []" and pat: "pat \<noteq> []"
    and hd: "hd rep = hd pat"
    and hp: "hd pat \<notin> set (tl pat)"
    and hr: "hd pat \<notin> set (tl rep)"
    and mis: "\<exists>i. i < length pat \<and> i < length rep \<and> pat ! i \<noteq> rep ! i"
  shows "\<not> contains pat (replaceAll pat rep s)"
proof (induction s rule: length_induct)
  case (1 s)
  show ?case
  proof (cases s)
    case Nil
    with pat show ?thesis by simp
  next
    case (Cons c s')
    show ?thesis
    proof (cases "prefix pat (c # s')")
      case True
      let ?R = "replaceAll pat rep (drop (length pat - 1) s')"
      have out: "replaceAll pat rep s = rep @ ?R"
        using True pat by (simp add: Cons)
      have IH: "\<not> contains pat ?R"
        using 1 by (simp add: Cons)
      show ?thesis
      proof
        assume "contains pat (replaceAll pat rep s)"
        then have "contains pat (rep @ ?R)" by (simp only: out)
        from contains_append [OF this] IH
        obtain i where i: "i < length rep" and p: "prefix pat (drop i rep @ ?R)" by blast
        show False
        proof (cases i)
          case 0
          from mis obtain m where m: "m < length pat" "m < length rep" "pat ! m \<noteq> rep ! m"
            by blast
          from p 0 have "prefix pat (rep @ ?R)" by simp
          then obtain zs where "rep @ ?R = pat @ zs" by (auto simp: prefix_def)
          then have "(rep @ ?R) ! m = (pat @ zs) ! m" by simp
          with m show False by (simp add: nth_append)
        next
          case (Suc j)
          from p pat have "hd (drop i rep @ ?R) = hd pat"
            by (cases pat) (auto simp: prefix_def)
          moreover have "hd (drop i rep @ ?R) = rep ! i"
            using i by (simp add: hd_drop_conv_nth)
          moreover have "rep ! i \<in> set (tl rep)"
            using i Suc rep by (cases rep) auto
          ultimately show False using hr by simp
        qed
      qed
    next
      case False
      let ?R = "replaceAll pat rep s'"
      have out: "replaceAll pat rep s = c # ?R"
        using False by (simp add: Cons)
      have IH: "\<not> contains pat ?R"
        using 1 by (simp add: Cons)
      have "\<not> prefix pat (c # ?R)"
      proof
        assume p: "prefix pat (c # ?R)"
        from pat obtain a q where aq: "pat = a # q" by (cases pat) auto
        with p have "a = c" "prefix q ?R" by auto
        moreover have "hd pat \<notin> set q" using hp aq by simp
        ultimately have "prefix q s'"
          using prefix_replaceAll [OF rep hd] by blast
        with \<open>a = c\<close> aq False show False by simp
      qed
      with IH show ?thesis by (simp add: out)
    qed
  qed
qed

lemma rule2_removes: "\<not> contains ''$components/'' (replaceAll ''$components/'' ''$lib/components/'' s)"
proof (rule replaceAll_removes)
  show "\<exists>i. i < length ''$components/'' \<and> i < length ''$lib/components/'' \<and> ''$components/'' ! i \<noteq> ''$lib/components/'' ! i"
    by (rule exI [of _ 1]) simp
qed simp_all

lemma rule3_removes: "\<not> contains (''.ts'' @ [CHR 0x27]) (replaceAll (''.ts'' @ [CHR 0x27]) (''.js'' @ [CHR 0x27]) s)"
proof (rule replaceAll_removes)
  show "\<exists>i. i < length (''.ts'' @ [CHR 0x27]) \<and> i < length  (''.js'' @ [CHR 0x27]) \<and> (''.ts'' @ [CHR 0x27]) ! i \<noteq>  (''.js'' @ [CHR 0x27]) ! i"
    by (rule exI [of _ 1]) simp
qed simp_all

lemma rule4_removes: "\<not> contains (''.ts'' @ [CHR 0x22]) (replaceAll (''.ts'' @ [CHR 0x22]) (''.js'' @ [CHR 0x22]) s)"
proof (rule replaceAll_removes)
  show "\<exists>i. i < length (''.ts'' @ [CHR 0x22]) \<and> i < length  (''.js'' @ [CHR 0x22]) \<and> (''.ts'' @ [CHR 0x22]) ! i \<noteq>  (''.js'' @ [CHR 0x22]) ! i"
    by (rule exI [of _ 1]) simp
qed simp_all

lemma occurs_at_0 [simp]: "occurs_at pat s 0 = prefix pat s"
  by (simp add: occurs_at_def)

lemma occurs_at_Suc [simp]: "occurs_at pat (c # s) (Suc i) = occurs_at pat s i"
  by (simp add: occurs_at_def)

lemma occurs_at_drop: "occurs_at pat (drop n s) i = occurs_at pat s (n + i)"
  by (simp add: occurs_at_def add.commute)

lemma contains_occurs: "contains pat s \<longleftrightarrow> (\<exists>i. occurs_at pat s i)"
proof (induction s)
  case Nil
  show ?case by (simp add: occurs_at_def)
next
  case (Cons c s)
  have "(\<exists>i. occurs_at pat (c # s) i) \<longleftrightarrow> occurs_at pat (c # s) 0 \<or> (\<exists>i. occurs_at pat (c # s) (Suc i))"
    by (metis not0_implies_Suc)
  with Cons show ?case by simp
qed

lemma occurs_at_nth:
  assumes "pat \<noteq> []"
  shows "occurs_at pat s i \<longleftrightarrow> i + length pat \<le> length s \<and> (\<forall>k<length pat. s ! (i + k) = pat ! k)"
proof
  assume "occurs_at pat s i"
  then obtain zs where zs: "drop i s = pat @ zs" by (auto simp: occurs_at_def prefix_def)
  then have "length (drop i s) = length pat + length zs" by simp
  then have len: "i + length pat \<le> length s" using assms by (cases pat) simp_all
  have "s ! (i + k) = pat ! k" if "k < length pat" for k
  proof -
    have "s ! (i + k) = drop i s ! k" using len that by simp
    also have "\<dots> = pat ! k" using that by (simp add: zs nth_append)
    finally show ?thesis .
  qed
  with len show "i + length pat \<le> length s \<and> (\<forall>k<length pat. s ! (i + k) = pat ! k)" by blast
next
  assume a: "i + length pat \<le> length s \<and> (\<forall>k<length pat. s ! (i + k) = pat ! k)"
  then have "take (length pat) (drop i s) = pat"
    by (intro nth_equalityI) auto
  then have "drop i s = pat @ drop (length pat) (drop i s)"
    by (metis append_take_drop_id)
  then show "occurs_at pat s i"
    unfolding occurs_at_def prefix_def by blast
qed

lemma replaceAll_length:
  "length rep = length pat \<Longrightarrow> length (replaceAll pat rep s) = length s"
proof (induction pat rep s rule: replaceAll.induct)
  case (1 pat rep)
  show ?case by simp
next
  case (2 pat rep c s)
  show ?case
  proof (cases "pat \<noteq> [] \<and> prefix pat (c # s)")
    case True
    then have "length pat \<le> length (c # s)" by (auto dest: prefix_length_le)
    with 2 True show ?thesis by (cases pat) auto
  next
    case False
    with 2 show ?thesis by auto
  qed
qed

lemma replaceAll_step_match:
  assumes "pat \<noteq> []" and "prefix pat s"
  shows "replaceAll pat rep s = rep @ replaceAll pat rep (drop (length pat) s)"
proof -
  from assms obtain c s' where s: "s = c # s'" by (cases s) auto
  have "drop (length pat - 1) s' = drop (length pat) s"
    using assms(1) by (cases pat) (auto simp: s)
  with assms show ?thesis by (simp add: s)
qed

lemma replaceAll_changes:
  assumes len: "length rep = length pat"
  shows "k < length s \<Longrightarrow> replaceAll pat rep s ! k \<noteq> s ! k \<Longrightarrow>
    \<exists>j m. m < length pat \<and> k = j + m \<and> occurs_at pat s j \<and> replaceAll pat rep s ! k = rep ! m"
proof (induction s arbitrary: k rule: length_induct)
  case (1 s)
  from "1.prems"(1) obtain c s' where s: "s = c # s'" by (cases s) auto
  show ?case
  proof (cases "pat \<noteq> [] \<and> prefix pat s")
    case True
    let ?n = "length pat"
    let ?t = "drop ?n s"
    have out: "replaceAll pat rep s = rep @ replaceAll pat rep ?t"
      using True by (simp add: replaceAll_step_match)
    show ?thesis
    proof (cases "k < ?n")
      case k: True
      then have "replaceAll pat rep s ! k = rep ! k"
        by (simp add: out nth_append len)
      with k True show ?thesis
        by (intro exI [of _ 0] exI [of _ k]) simp
    next
      case k: False
      have n0: "0 < ?n" using True by simp
      have kt: "k - ?n < length ?t" using k "1.prems"(1) by simp
      have "replaceAll pat rep s ! k = replaceAll pat rep ?t ! (k - ?n)"
        using k by (simp add: out nth_append len)
      moreover have "s ! k = ?t ! (k - ?n)"
        using k "1.prems"(1) by simp
      ultimately have ne: "replaceAll pat rep ?t ! (k - ?n) \<noteq> ?t ! (k - ?n)"
        and eq: "replaceAll pat rep s ! k = replaceAll pat rep ?t ! (k - ?n)"
        using "1.prems"(2) by simp_all
      have "length ?t < length s" using n0 by (simp add: s)
      with "1.IH" kt ne obtain j m where jm: "m < ?n" "k - ?n = j + m" "occurs_at pat ?t j"
        "replaceAll pat rep ?t ! (k - ?n) = rep ! m"
        by blast
      then have "k = (?n + j) + m" "occurs_at pat s (?n + j)"
        using k by (simp_all add: occurs_at_drop)
      with jm eq show ?thesis by metis
    qed
  next
    case False
    then have out: "replaceAll pat rep s = c # replaceAll pat rep s'"
      by (auto simp: s)
    from "1.prems"(2) have ne: "(c # replaceAll pat rep s') ! k \<noteq> (c # s') ! k"
      by (simp only: out) (simp add: s)
    then obtain k' where k': "k = Suc k'"
      by (cases k) auto
    with "1.prems"(1) ne have "k' < length s'" "replaceAll pat rep s' ! k' \<noteq> s' ! k'"
      by (simp_all add: s)
    with "1.IH" obtain j m where jm: "m < length pat" "k' = j + m" "occurs_at pat s' j"
        "replaceAll pat rep s' ! k' = rep ! m"
      by (metis s length_Cons lessI)
    then have "k = Suc j + m" "occurs_at pat s (Suc j)" "replaceAll pat rep s ! k = rep ! m"
      by (simp_all add: k' out) (simp add: s)
    with jm(1) show ?thesis by blast
  qed
qed

lemma replaceAll_occurrence:
  assumes len: "length rep = length pat" and pat: "pat \<noteq> []" and hp: "hd pat \<notin> set (tl pat)"
  shows "occurs_at pat s i \<Longrightarrow> occurs_at rep (replaceAll pat rep s) i"
proof (induction s arbitrary: i rule: length_induct)
  case (1 s)
  let ?n = "length pat"
  have n0: "0 < ?n" using pat by simp
  from "1.prems" have il: "i + ?n \<le> length s" by (simp add: occurs_at_nth [OF pat])
  with n0 obtain c s' where s: "s = c # s'" by (cases s) auto
  show ?case
  proof (cases "prefix pat s")
    case True
    let ?t = "drop ?n s"
    have out: "replaceAll pat rep s = rep @ replaceAll pat rep ?t"
      using True pat by (simp add: replaceAll_step_match)
    consider "i = 0" | "0 < i" "i < ?n" | "?n \<le> i" by linarith
    then show ?thesis
    proof cases
      case 1
      then show ?thesis by (simp add: out)
    next
      case 2
      from "1.prems" n0 have "s ! i = pat ! 0" by (auto simp: occurs_at_nth [OF pat])
      moreover from True 2 have "s ! i = pat ! i"
        using occurs_at_nth [OF pat, of s 0] by simp
      moreover have "pat ! i \<in> set (tl pat)"
        using 2 pat by (cases pat) auto
      moreover have "pat ! 0 = hd pat" using pat by (simp add: hd_conv_nth)
      ultimately show ?thesis using hp by simp
    next
      case 3
      then have "occurs_at pat ?t (i - ?n)"
        using "1.prems" by (simp add: occurs_at_drop)
      moreover have "length ?t < length s" using n0 by (simp add: s)
      ultimately have "occurs_at rep (replaceAll pat rep ?t) (i - ?n)"
        using "1.IH" by blast
      then have "prefix rep (drop (i - ?n) (replaceAll pat rep ?t))"
        by (simp add: occurs_at_def)
      moreover have "drop i (rep @ replaceAll pat rep ?t) = drop (i - ?n) (replaceAll pat rep ?t)"
        using 3 by (simp add: len)
      ultimately show ?thesis by (simp add: out occurs_at_def)
    qed
  next
    case False
    then have out: "replaceAll pat rep s = c # replaceAll pat rep s'"
      by (auto simp: s)
    from False "1.prems" obtain i' where i': "i = Suc i'"
      by (cases i) auto
    with "1.prems" have "occurs_at pat s' i'" by (simp add: s)
    with "1.IH" have "occurs_at rep (replaceAll pat rep s') i'"
      by (metis s length_Cons lessI)
    then show ?thesis by (simp only: out i' occurs_at_Suc)
  qed
qed

lemma replaceAll_no_new:
  assumes len: "length rep = length pat" and pat: "pat \<noteq> []" and q: "q \<noteq> []"
    and fresh: "\<And>m. m < length pat \<Longrightarrow> rep ! m \<noteq> pat ! m \<Longrightarrow> rep ! m \<notin> set q"
    and occ: "occurs_at q (replaceAll pat rep s) i"
  shows "occurs_at q s i"
proof -
  let ?out = "replaceAll pat rep s"
  from occ have il: "i + length q \<le> length s"
    and eq: "\<And>k. k < length q \<Longrightarrow> ?out ! (i + k) = q ! k"
    by (simp_all add: occurs_at_nth [OF q] replaceAll_length [OF len])
  have "s ! (i + k) = q ! k" if k: "k < length q" for k
  proof (rule ccontr)
    assume ne: "s ! (i + k) \<noteq> q ! k"
    with eq [OF k] have "?out ! (i + k) \<noteq> s ! (i + k)" by simp
    moreover have "i + k < length s" using il k by simp
    ultimately obtain j m where jm: "m < length pat" "i + k = j + m" "occurs_at pat s j"
        "?out ! (i + k) = rep ! m"
      using replaceAll_changes [OF len] by blast
    from jm(1,3) have "s ! (j + m) = pat ! m" by (simp add: occurs_at_nth [OF pat])
    with jm(2,4) \<open>?out ! (i + k) \<noteq> s ! (i + k)\<close> have "rep ! m \<noteq> pat ! m" by simp
    from fresh [OF jm(1) this] jm(4) eq [OF k] k show False
      by (metis nth_mem)
  qed
  with il show ?thesis by (simp add: occurs_at_nth [OF q])
qed

lemma replaceAll_keeps:
  assumes len: "length rep = length pat" and pat: "pat \<noteq> []" and q: "q \<noteq> []"
    and occ: "occurs_at q s i"
    and apart: "\<And>j m k. m < length pat \<Longrightarrow> k < length q \<Longrightarrow> j + m = i + k \<Longrightarrow>
                 rep ! m \<noteq> pat ! m \<Longrightarrow> occurs_at pat s j \<Longrightarrow> False"
  shows "occurs_at q (replaceAll pat rep s) i"
proof -
  let ?out = "replaceAll pat rep s"
  from occ have il: "i + length q \<le> length s"
    and eq: "\<And>k. k < length q \<Longrightarrow> s ! (i + k) = q ! k"
    by (simp_all add: occurs_at_nth [OF q])
  have "?out ! (i + k) = q ! k" if k: "k < length q" for k
  proof (rule ccontr)
    assume ne: "?out ! (i + k) \<noteq> q ! k"
    with eq [OF k] have ch: "?out ! (i + k) \<noteq> s ! (i + k)" by simp
    moreover have "i + k < length s" using il k by simp
    ultimately obtain j m where jm: "m < length pat" "i + k = j + m" "occurs_at pat s j"
        "?out ! (i + k) = rep ! m"
      using replaceAll_changes [OF len] by blast
    from jm(1,3) have "s ! (j + m) = pat ! m" by (simp add: occurs_at_nth [OF pat])
    with jm(2,4) ch have "rep ! m \<noteq> pat ! m" by simp
    from apart [OF jm(1) k jm(2) [symmetric] this jm(3)] show False .
  qed
  with il show ?thesis by (simp add: occurs_at_nth [OF q] replaceAll_length [OF len])
qed

lemma contains_no_new:
  assumes "length rep = length pat" and "pat \<noteq> []" and "q \<noteq> []"
    and "\<And>m. m < length pat \<Longrightarrow> rep ! m \<noteq> pat ! m \<Longrightarrow> rep ! m \<notin> set q"
    and "\<not> contains q s"
  shows "\<not> contains q (replaceAll pat rep s)"
  using assms(5) replaceAll_no_new [OF assms(1-4)] unfolding contains_occurs by blast

lemma ts_differs:
  assumes "m < length (''.ts'' @ [c])" and "(''.js'' @ [c]) ! m \<noteq> (''.ts'' @ [c]) ! m"
  shows "m = 1"
proof -
  from assms(1) have "m = 0 \<or> m = 1 \<or> m = 2 \<or> m = 3" by auto
  with assms(2) show ?thesis by auto
qed

lemma rule3_keeps_components:
  "\<not> contains ''$components/'' s \<Longrightarrow>
   \<not> contains ''$components/'' (replaceAll (''.ts'' @ [c]) (''.js'' @ [c]) s)"
proof (rule contains_no_new)
  fix m
  assume "m < length (''.ts'' @ [c])" "(''.js'' @ [c]) ! m \<noteq> (''.ts'' @ [c]) ! m"
  then have "m = 1" by (rule ts_differs)
  then show "(''.js'' @ [c]) ! m \<notin> set ''$components/''" by simp
qed simp_all

lemma rule4_keeps_single:
  "\<not> contains (''.ts'' @ [CHR 0x27]) s \<Longrightarrow>
   \<not> contains (''.ts'' @ [CHR 0x27]) (replaceAll (''.ts'' @ [CHR 0x22]) (''.js'' @ [CHR 0x22]) s)"
proof (rule contains_no_new)
  fix m
  assume "m < length (''.ts'' @ [CHR 0x22])"
    "(''.js'' @ [CHR 0x22]) ! m \<noteq> (''.ts'' @ [CHR 0x22]) ! m"
  then have "m = 1" by (rule ts_differs)
  then show "(''.js'' @ [CHR 0x22]) ! m \<notin> set (''.ts'' @ [CHR 0x27])" by simp
qed simp_all

text \<open>
  Claim C5. The content adapter is idempotent: for every configuration and every input
  text, adapting an adapted text gives the adapted text.
\<close>

theorem processFileContent_idempotent:
  "processFileContent cfg (processFileContent cfg x) = processFileContent cfg x"
proof (cases "typescript cfg")
  case True
  then have f: "processFileContent cfg s = replaceAll ''$components/'' ''$lib/components/'' s" for s
    by (simp add: processFileContent_def replaceAll_same del: replaceAll.simps)
  show ?thesis
    unfolding f by (rule replaceAll_no_match) (rule rule2_removes)
next
  case False
  let ?r2 = "replaceAll ''$components/'' ''$lib/components/''"
  let ?r3 = "replaceAll (''.ts'' @ [CHR 0x27]) (''.js'' @ [CHR 0x27])"
  let ?r4 = "replaceAll (''.ts'' @ [CHR 0x22]) (''.js'' @ [CHR 0x22])"
  from False have f: "processFileContent cfg s = ?r4 (?r3 (?r2 s))" for s
    by (simp add: processFileContent_def replaceAll_same del: replaceAll.simps)
  let ?w = "?r4 (?r3 (?r2 x))"
  have "\<not> contains ''$components/'' ?w"
    by (intro rule3_keeps_components rule2_removes)
  then have 2: "?r2 ?w = ?w" by (rule replaceAll_no_match)
  have "\<not> contains (''.ts'' @ [CHR 0x27]) ?w"
    by (intro rule4_keeps_single rule3_removes)
  then have 3: "?r3 ?w = ?w" by (rule replaceAll_no_match)
  have "\<not> contains (''.ts'' @ [CHR 0x22]) ?w"
    by (rule rule4_removes)
  then have 4: "?r4 ?w = ?w" by (rule replaceAll_no_match)
  show ?thesis
    unfolding f by (simp only: 2 3 4)
qed

lemma occurs_at_nthD: "occurs_at pat s i \<Longrightarrow> pat \<noteq> [] \<Longrightarrow> k < length pat \<Longrightarrow> s ! (i + k) = pat ! k"
  by (simp add: occurs_at_nth)

lemma rule4_keeps_js_single:
  assumes occ: "occurs_at (''.js'' @ [CHR 0x27]) z i"
  shows "occurs_at (''.js'' @ [CHR 0x27]) (replaceAll (''.ts'' @ [CHR 0x22]) (''.js'' @ [CHR 0x22]) z) i"
proof (rule replaceAll_keeps [OF _ _ _ occ])
  fix j m k
  assume m: "m < length (''.ts'' @ [CHR 0x22])" and k: "k < length (''.js'' @ [CHR 0x27])"
    and jm: "j + m = i + k"
    and d: "(''.js'' @ [CHR 0x22]) ! m \<noteq> (''.ts'' @ [CHR 0x22]) ! m"
    and o: "occurs_at (''.ts'' @ [CHR 0x22]) z j"
  from m d have m1: "m = 1" by (rule ts_differs)
  from occurs_at_nthD [OF o, of 1] have "z ! (j + 1) = CHR ''t''"
    by simp
  moreover from occurs_at_nthD [OF occ _ k] have "z ! (i + k) = (''.js'' @ [CHR 0x27]) ! k"
    by simp
  moreover from k have "k = 0 \<or> k = 1 \<or> k = 2 \<or> k = 3" by auto
  ultimately show False using jm m1 by auto
qed simp_all

lemma rule3_keeps_ts_double:
  assumes occ: "occurs_at (''.ts'' @ [CHR 0x22]) y i"
  shows "occurs_at (''.ts'' @ [CHR 0x22]) (replaceAll (''.ts'' @ [CHR 0x27]) (''.js'' @ [CHR 0x27]) y) i"
proof (rule replaceAll_keeps [OF _ _ _ occ])
  fix j m k
  assume m: "m < length (''.ts'' @ [CHR 0x27])" and k: "k < length (''.ts'' @ [CHR 0x22])"
    and jm: "j + m = i + k"
    and d: "(''.js'' @ [CHR 0x27]) ! m \<noteq> (''.ts'' @ [CHR 0x27]) ! m"
    and o: "occurs_at (''.ts'' @ [CHR 0x27]) y j"
  from m d have m1: "m = 1" by (rule ts_differs)
  from occurs_at_nthD [OF o, of 1] occurs_at_nthD [OF o, of 3]
  have a: "y ! (j + 1) = CHR ''t''" "y ! (j + 3) = CHR 0x27"
    by simp_all
  have b: "y ! (i + k) = (''.ts'' @ [CHR 0x22]) ! k" if "k < 4" for k
    using occurs_at_nthD [OF occ, of k] that by simp
  from jm m1 have e: "j + 1 = i + k" by simp
  have k4: "k < 4" using k by simp
  have "(''.ts'' @ [CHR 0x22]) ! k = CHR ''t''"
    using a(1) [unfolded e] b [OF k4] by simp
  moreover from k have "k = 0 \<or> k = 1 \<or> k = 2 \<or> k = 3" by auto
  ultimately have "k = 1" by auto
  with e have "j = i" by simp
  with a(2) b [of 3] show False by simp
qed simp_all

lemma rule3_changes:
  assumes k: "k < length y"
    and ne: "replaceAll (''.ts'' @ [c]) (''.js'' @ [c]) y ! k \<noteq> y ! k"
  shows "0 < k \<and> occurs_at (''.ts'' @ [c]) y (k - 1)"
proof -
  let ?out = "replaceAll (''.ts'' @ [c]) (''.js'' @ [c]) y"
  have len: "length (''.js'' @ [c]) = length (''.ts'' @ [c])" by simp
  from replaceAll_changes [OF len k ne] obtain j m
    where jm: "m < length (''.ts'' @ [c])" "k = j + m" "occurs_at (''.ts'' @ [c]) y j"
      "?out ! k = (''.js'' @ [c]) ! m"
    by blast
  from occurs_at_nthD [OF jm(3) _ jm(1)] jm(2) have "y ! k = (''.ts'' @ [c]) ! m" by simp
  with ne jm(4) have "(''.js'' @ [c]) ! m \<noteq> (''.ts'' @ [c]) ! m" by simp
  with jm(1) have "m = 1" by (rule ts_differs)
  with jm(2,3) show ?thesis by simp
qed

text \<open>
  Claim C8, amended. The alias rule is applied whatever the typing flag says. With
  \<open>typescript\<close> true no extension is rewritten: the output is the input after the
  alias rule, hence the input itself when it holds no \<^verbatim>\<open>$components/\<close>. With
  \<open>typescript\<close> false the output has the length of the input after the alias rule,
  holds \<^verbatim>\<open>.js'\<close> and \<^verbatim>\<open>.js"\<close> wherever that text holds \<^verbatim>\<open>.ts'\<close> and \<^verbatim>\<open>.ts"\<close>, differs
  from it only at the \<^verbatim>\<open>t\<close> of such an occurrence, and holds neither \<^verbatim>\<open>.ts'\<close> nor
  \<^verbatim>\<open>.ts"\<close> any more.
\<close>

theorem processFileContent_extensions:
  \<open>processFileContent (cfg\<lparr>typescript := True\<rparr>) x
      = replaceAll ''$components/'' ''$lib/components/'' x \<and>
   (\<not> contains ''$components/'' x \<longrightarrow> processFileContent (cfg\<lparr>typescript := True\<rparr>) x = x) \<and>
   (let y = replaceAll ''$components/'' ''$lib/components/'' x;
        out = processFileContent (cfg\<lparr>typescript := False\<rparr>) x
    in length out = length y \<and>
       \<not> contains (''.ts'' @ [CHR 0x27]) out \<and> \<not> contains (''.ts'' @ [CHR 0x22]) out \<and>
       (\<forall>i. occurs_at (''.ts'' @ [CHR 0x27]) y i \<longrightarrow> occurs_at (''.js'' @ [CHR 0x27]) out i) \<and>
       (\<forall>i. occurs_at (''.ts'' @ [CHR 0x22]) y i \<longrightarrow> occurs_at (''.js'' @ [CHR 0x22]) out i) \<and>
       (\<forall>k<length y. out ! k \<noteq> y ! k \<longrightarrow>
          0 < k \<and> (occurs_at (''.ts'' @ [CHR 0x27]) y (k - 1)
                   \<or> occurs_at (''.ts'' @ [CHR 0x22]) y (k - 1))))\<close>
proof -
  let ?r2 = "replaceAll ''$components/'' ''$lib/components/''"
  let ?r3 = "replaceAll (''.ts'' @ [CHR 0x27]) (''.js'' @ [CHR 0x27])"
  let ?r4 = "replaceAll (''.ts'' @ [CHR 0x22]) (''.js'' @ [CHR 0x22])"
  let ?y = "?r2 x"
  let ?z = "?r3 ?y"
  have t: "processFileContent (cfg\<lparr>typescript := True\<rparr>) x = ?y"
    by (simp add: processFileContent_def replaceAll_same del: replaceAll.simps)
  have f: "processFileContent (cfg\<lparr>typescript := False\<rparr>) x = ?r4 ?z"
    by (simp add: processFileContent_def replaceAll_same del: replaceAll.simps)
  have a: "\<not> contains ''$components/'' x \<longrightarrow> processFileContent (cfg\<lparr>typescript := True\<rparr>) x = x"
    unfolding t by (simp add: replaceAll_no_match del: replaceAll.simps)
  have lz: "length ?z = length ?y" by (rule replaceAll_length) simp
  have l: "length (?r4 ?z) = length ?y"
    using replaceAll_length [of "''.js'' @ [CHR 0x22]" "''.ts'' @ [CHR 0x22]" ?z] lz by simp
  have n3: "\<not> contains (''.ts'' @ [CHR 0x27]) (?r4 ?z)"
    by (intro rule4_keeps_single rule3_removes)
  have n4: "\<not> contains (''.ts'' @ [CHR 0x22]) (?r4 ?z)"
    by (rule rule4_removes)
  have o3: "occurs_at (''.js'' @ [CHR 0x27]) (?r4 ?z) i" if "occurs_at (''.ts'' @ [CHR 0x27]) ?y i" for i
  proof -
    from that have "occurs_at (''.js'' @ [CHR 0x27]) ?z i"
      by (rule replaceAll_occurrence [rotated -1]) simp_all
    then show ?thesis by (rule rule4_keeps_js_single)
  qed
  have o4: "occurs_at (''.js'' @ [CHR 0x22]) (?r4 ?z) i" if "occurs_at (''.ts'' @ [CHR 0x22]) ?y i" for i
  proof -
    from that have "occurs_at (''.ts'' @ [CHR 0x22]) ?z i"
      by (rule rule3_keeps_ts_double)
    then show ?thesis
      by (rule replaceAll_occurrence [rotated -1]) simp_all
  qed
  have ch: "0 < k \<and> (occurs_at (''.ts'' @ [CHR 0x27]) ?y (k - 1) \<or> occurs_at (''.ts'' @ [CHR 0x22]) ?y (k - 1))"
    if k: "k < length ?y" and ne: "?r4 ?z ! k \<noteq> ?y ! k" for k
  proof (cases "?z ! k = ?y ! k")
    case False
    from rule3_changes [OF k False] show ?thesis by blast
  next
    case True
    with ne have "?r4 ?z ! k \<noteq> ?z ! k" by simp
    moreover have "k < length ?z" using k lz by simp
    ultimately have k0: "0 < k" and o: "occurs_at (''.ts'' @ [CHR 0x22]) ?z (k - 1)"
      using rule3_changes [of k ?z "CHR 0x22"] by blast+
    have "occurs_at (''.ts'' @ [CHR 0x22]) ?y (k - 1)"
    proof (rule replaceAll_no_new [OF _ _ _ _ o])
      fix m
      assume "m < length (''.ts'' @ [CHR 0x27])"
        "(''.js'' @ [CHR 0x27]) ! m \<noteq> (''.ts'' @ [CHR 0x27]) ! m"
      then have "m = 1" by (rule ts_differs)
      then show "(''.js'' @ [CHR 0x27]) ! m \<notin> set (''.ts'' @ [CHR 0x22])" by simp
    qed simp_all
    with k0 show ?thesis by blast
  qed
  show ?thesis
    unfolding Let_def f using t a l n3 n4 o3 o4 ch by blast
qed

text \<open>
  Claim C8 as stated fails: with \<open>typescript\<close> true an input that holds the extension
  before a closing quote is changed when it also holds the components alias.
\<close>

theorem processFileContent_alias_counterexample:
  \<open>typescript ts_config \<and> contains (''.ts'' @ [CHR 0x27]) alias_import \<and>
   processFileContent ts_config alias_import = ''import B from '$lib/components/b.ts';'' \<and>
   processFileContent ts_config alias_import \<noteq> alias_import\<close>
  by (simp add: ts_config_def alias_import_def processFileContent_def)

lemma occ1: \<open>occurs_at (''.ts'' @ [CHR 0x27]) two_imports 18\<close>
  by (simp add: occurs_at_def two_imports_def)

lemma occ2: \<open>occurs_at (''.ts'' @ [CHR 0x22]) two_imports 42\<close>
  by (simp add: occurs_at_def two_imports_def)

text \<open>
  The theorem of claim C8 at an input with both quoting styles.
\<close>

theorem processFileContent_extensions_witness:
  \<open>\<not> contains ''$components/'' two_imports \<and>
   occurs_at (''.ts'' @ [CHR 0x27]) two_imports 18 \<and>
   occurs_at (''.ts'' @ [CHR 0x22]) two_imports 42 \<and>
   processFileContent ts_config two_imports = two_imports \<and>
   occurs_at (''.js'' @ [CHR 0x27]) (processFileContent js_config two_imports) 18 \<and>
   occurs_at (''.js'' @ [CHR 0x22]) (processFileContent js_config two_imports) 42 \<and>
   processFileContent js_config two_imports = ''import a from './a.js'; import b from "./b.js";''\<close>
proof -
  have c: "\<not> contains ''$components/'' two_imports"
    by (simp add: two_imports_def)
  have y: "replaceAll ''$components/'' ''$lib/components/'' two_imports = two_imports"
    using c by (rule replaceAll_no_match)
  have e: "processFileContent js_config two_imports = ''import a from './a.js'; import b from \"./b.js\";''"
    by (simp add: js_config_def ts_config_def two_imports_def processFileContent_def)
  have cfg: "js_config\<lparr>typescript := False\<rparr> = js_config" "js_config\<lparr>typescript := True\<rparr> = ts_config"
    by (simp_all add: js_config_def ts_config_def)
  from processFileContent_extensions [of js_config two_imports] c occ1 occ2 e
  show ?thesis
    unfolding Let_def y cfg by blast
qed

section \<open>The installer\<close>

subsection \<open>Directories and files\<close>

lemma ensureDir_cwd [simp]: "cwd (snd (ensureDir d dir)) = cwd d"
  by (simp add: ensureDir_def)

lemma ensureDir_node:
  "node_at d q = Some n \<Longrightarrow> node_at (snd (ensureDir d dir)) q = Some n"
  by (auto simp: ensureDir_def node_at_def split: if_splits)

lemma ensureDir_error: "ensureDir d dir = (Some e, d') \<Longrightarrow> d' = d \<and> e \<in> range SystemError"
  by (auto simp: ensureDir_def split: if_splits)

lemma ensureDir_made:
  assumes "ensureDir d dir = (None, d')" and "prefix q dir"
  shows "node_at d' q = Some Dir"
proof -
  from assms(1) have nf: "\<not> list_ex (is_file d) (prefixes dir)"
    and d': "d' = d\<lparr>nodes := (\<lambda>q. if prefix q dir \<and> node_at d q = None then Some Dir
                                    else nodes d q)\<rparr>"
    by (auto simp: ensureDir_def split: if_splits)
  from nf assms(2) have "\<not> is_file d q"
    by (auto simp: list_ex_iff in_set_prefixes)
  then have "node_at d q = None \<or> node_at d q = Some Dir"
    by (auto simp: is_file_def split: option.splits node.splits)
  with assms(2) show ?thesis
    by (auto simp: d' node_at_def split: if_splits)
qed

lemma writeFile_cwd [simp]: "cwd (snd (writeFile d p s)) = cwd d"
proof -
  obtain r d1 where e: "ensureDir d (dir_of d p) = (r, d1)" by (cases "ensureDir d (dir_of d p)")
  with ensureDir_cwd [of d "dir_of d p"] have "cwd d1 = cwd d" by simp
  with e show ?thesis by (cases r) (simp_all add: writeFile_def)
qed

lemma writeFile_error: "writeFile d p s = (Some e, d') \<Longrightarrow> e \<in> range SystemError"
  by (auto simp: writeFile_def split: prod.splits option.splits if_splits dest: ensureDir_error)

lemma writeFile_Dir:
  assumes "node_at d q = Some Dir"
  shows "node_at (snd (writeFile d p s)) q = Some Dir"
proof -
  obtain r d1 where e: "ensureDir d (dir_of d p) = (r, d1)" by (cases "ensureDir d (dir_of d p)")
  from ensureDir_node [OF assms, of "dir_of d p"] e have 1: "node_at d1 q = Some Dir" by simp
  show ?thesis
  proof (cases r)
    case (Some x)
    with e 1 show ?thesis by (simp add: writeFile_def)
  next
    case None
    with e 1 show ?thesis
      by (auto simp: writeFile_def node_at_def split: if_splits)
  qed
qed

lemma writeFile_bound:
  assumes "node_at d q \<noteq> None"
  shows "node_at (snd (writeFile d p s)) q \<noteq> None"
proof -
  obtain r d1 where e: "ensureDir d (dir_of d p) = (r, d1)" by (cases "ensureDir d (dir_of d p)")
  from assms obtain n where "node_at d q = Some n" by blast
  from ensureDir_node [OF this, of "dir_of d p"] e have 1: "node_at d1 q \<noteq> None" by simp
  show ?thesis
  proof (cases r)
    case (Some x)
    with e 1 show ?thesis by (simp add: writeFile_def)
  next
    case None
    with e 1 show ?thesis
      by (auto simp: writeFile_def node_at_def split: if_splits)
  qed
qed

lemma locate_cwd: "cwd d' = cwd d \<Longrightarrow> locate d' p = locate d p"
  by (simp add: locate_def)

lemma writeFile_keeps:
  assumes "node_at d q = Some (File x)" and "\<not> existsSync d p"
  shows "node_at (snd (writeFile d p s)) q = Some (File x)"
proof -
  obtain r d1 where e: "ensureDir d (dir_of d p) = (r, d1)" by (cases "ensureDir d (dir_of d p)")
  from ensureDir_node [OF assms(1), of "dir_of d p"] e have 1: "node_at d1 q = Some (File x)" by simp
  show ?thesis
  proof (cases r)
    case (Some y)
    with e 1 show ?thesis by (simp add: writeFile_def)
  next
    case None
    show ?thesis
    proof (cases "q = locate d p")
      case True
      with assms have "p = [] \<or> trailing p"
        by (auto simp: existsSync_def)
      with e None 1 show ?thesis
        by (auto simp: writeFile_def)
    next
      case False
      with e None 1 show ?thesis
        by (auto simp: writeFile_def node_at_def split: if_splits)
    qed
  qed
qed

lemma writeFile_written:
  assumes "writeFile d p s = (None, d')"
  shows "node_at d' (locate d p) = Some (File s) \<and> existsSync d' p"
proof -
  obtain r d1 where e: "ensureDir d (dir_of d p) = (r, d1)" by (cases "ensureDir d (dir_of d p)")
  with assms have r: "r = None" by (cases r) (simp_all add: writeFile_def)
  from assms e r have p: "p \<noteq> []" "\<not> trailing p" "node_at d1 (locate d p) \<noteq> Some Dir"
    and d': "d' = d1\<lparr>nodes := (nodes d1)(locate d p \<mapsto> File s)\<rparr>"
    by (auto simp: writeFile_def split: if_splits)
  from p(3) have "\<not> prefix (locate d p) (cwd d1)" by (auto simp: node_at_def)
  then have n: "node_at d' (locate d p) = Some (File s)" by (simp add: d' node_at_def)
  have "cwd d' = cwd d" using writeFile_cwd [of d p s] assms by simp
  then have "locate d' p = locate d p" by (rule locate_cwd)
  with n p show ?thesis by (simp add: existsSync_def)
qed

lemma grows_refl [simp]: "grows d d"
  by (simp add: grows_def)

lemma grows_trans: "grows d1 d2 \<Longrightarrow> grows d2 d3 \<Longrightarrow> grows d1 d3"
  by (simp add: grows_def)

lemma grows_writeFile: "grows d (snd (writeFile d p s))"
  by (simp add: grows_def writeFile_Dir writeFile_bound)

lemma grows_exists:
  assumes "grows d d'" and "existsSync d p"
  shows "existsSync d' p"
proof -
  from assms(1) have l: "locate d' p = locate d p" by (simp add: grows_def locate_def)
  from assms(2) have "node_at d (locate d p) \<noteq> None"
    by (auto simp: existsSync_def split: option.splits)
  with assms(1) have 1: "node_at d' (locate d p) \<noteq> None" by (simp add: grows_def)
  have 2: "node_at d' (locate d p) = Some Dir" if "node_at d (locate d p) = Some Dir"
    using assms(1) that by (simp add: grows_def)
  from assms(2) 1 2 show ?thesis
    by (auto simp: existsSync_def l split: option.splits node.splits)
qed

text \<open>The tree shape of the disk is kept by a write.\<close>

lemma walk_snoc: "walk start (segs @ [seg]) = enter (walk start segs) seg"
  by (simp add: walk_def)

lemma well_formed_ensureDir:
  assumes "well_formed d"
  shows "well_formed (snd (ensureDir d dir))"
proof (cases "ensureDir d dir")
  case (Pair r d')
  show ?thesis
  proof (cases r)
    case (Some e)
    with Pair ensureDir_error [of d dir e d'] assms show ?thesis by simp
  next
    case None
    with Pair have made: "\<And>q. prefix q dir \<Longrightarrow> node_at d' q = Some Dir"
      by (simp add: ensureDir_made)
    from Pair have kept: "\<And>q n. node_at d q = Some n \<Longrightarrow> node_at d' q = Some n"
      using ensureDir_node [of d _ _ dir] by simp
    from Pair None have d': "d' = d\<lparr>nodes := (\<lambda>q. if prefix q dir \<and> node_at d q = None then Some Dir
                                    else nodes d q)\<rparr>"
      by (auto simp: ensureDir_def split: if_splits)
    have "node_at d' r = Some Dir" if q: "nodes d' q \<noteq> None" and r: "strict_prefix r q" for q r
    proof (cases "prefix q dir \<and> node_at d q = None")
      case True
      with r have "prefix r dir" by (meson prefix_order.order_trans strict_prefix_def prefix_order.less_imp_le)
      then show ?thesis by (rule made)
    next
      case False
      with q have "nodes d q \<noteq> None" by (simp add: d')
      with assms r have "node_at d r = Some Dir" by (simp add: well_formed_def)
      then show ?thesis by (rule kept)
    qed
    with Pair show ?thesis by (simp add: well_formed_def)
  qed
qed

lemma well_formed_writeFile:
  assumes "well_formed d"
  shows "well_formed (snd (writeFile d p s))"
proof -
  obtain r d1 where e: "ensureDir d (dir_of d p) = (r, d1)" by (cases "ensureDir d (dir_of d p)")
  from well_formed_ensureDir [OF assms, of "dir_of d p"] e have wf: "well_formed d1" by simp
  show ?thesis
  proof (cases r)
    case (Some x)
    with e wf show ?thesis by (simp add: writeFile_def)
  next
    case None
    show ?thesis
    proof (cases "writeFile d p s = (None, d1\<lparr>nodes := (nodes d1)(locate d p \<mapsto> File s)\<rparr>)")
      case False
      with e None have "snd (writeFile d p s) = d1"
        by (auto simp: writeFile_def split: if_splits)
      with wf show ?thesis by simp
    next
      case True
      let ?d' = "d1\<lparr>nodes := (nodes d1)(locate d p \<mapsto> File s)\<rparr>"
      let ?start = "if absolute p then [] else cwd d"
      from True e None have nd: "node_at d1 (locate d p) \<noteq> Some Dir"
        by (auto simp: writeFile_def split: if_splits)
      have made: "\<And>q. prefix q (dir_of d p) \<Longrightarrow> node_at d1 q = Some Dir"
        using e None by (simp add: ensureDir_made)
      have c: "cwd d1 = cwd d" using ensureDir_cwd [of d "dir_of d p"] e by simp
      have root: "node_at d1 [] = Some Dir" by (simp add: node_at_def)
      have above: "node_at d1 r = Some Dir" if "strict_prefix r (locate d p)" for r
      proof (cases "segments p" rule: rev_cases)
        case Nil
        then have "locate d p = dir_of d p" by (simp add: locate_def dir_of_def)
        with made [of "locate d p"] nd show ?thesis by simp
      next
        case (snoc segs seg)
        then have l: "locate d p = enter (dir_of d p) seg"
          by (simp add: locate_def dir_of_def walk_snoc)
        show ?thesis
        proof (cases "seg = ''.'' \<or> seg = ''..''")
          case True
          then have "prefix (locate d p) (dir_of d p)"
            by (auto simp: l enter_def prefixeq_butlast)
          with made nd show ?thesis by blast
        next
          case False
          then have "locate d p = dir_of d p @ [seg]" by (auto simp: l enter_def)
          with that have "prefix r (dir_of d p)" by (auto simp: strict_prefix_def)
          then show ?thesis by (rule made)
        qed
      qed
      have keep: "node_at ?d' r = Some Dir" if "node_at d1 r = Some Dir" for r
        using that nd by (auto simp: node_at_def split: if_splits)
      have "node_at ?d' r = Some Dir" if q: "nodes ?d' q \<noteq> None" and r: "strict_prefix r q" for q r
      proof (cases "q = locate d p")
        case True
        with r above keep show ?thesis by simp
      next
        case False
        with q have "nodes d1 q \<noteq> None" by simp
        with wf r have "node_at d1 r = Some Dir" by (simp add: well_formed_def)
        then show ?thesis by (rule keep)
      qed
      with True show ?thesis by (simp add: well_formed_def)
    qed
  qed
qed


subsection \<open>The files of one component\<close>

lemma install_files_Cons:
  "install_files opts join t c (f # fs) acc d =
     (if existsSync d (target join t c f) \<and> \<not> force opts
      then (Inl (FileExists (target join t c f)), d)
      else if dryRun opts then install_files opts join t c fs (acc @ [target join t c f]) d
      else (case writeFile d (target join t c f) (processFileContent (config opts) (content f)) of
              (Some e, d') \<Rightarrow> (Inl e, d')
            | (None, d') \<Rightarrow> install_files opts join t c fs (acc @ [target join t c f]) d'))"
  unfolding target_def by (simp add: Let_def)

declare install_files.simps(2) [simp del]

lemma install_files_step:
  obtains
    (conflict) "existsSync d (target join t c f)" and "\<not> force opts"
      and "install_files opts join t c (f # fs) acc d = (Inl (FileExists (target join t c f)), d)"
  | (dry) "\<not> (existsSync d (target join t c f) \<and> \<not> force opts)" and "dryRun opts"
      and "install_files opts join t c (f # fs) acc d
             = install_files opts join t c fs (acc @ [target join t c f]) d"
  | (failed) e d' where "\<not> (existsSync d (target join t c f) \<and> \<not> force opts)"
      and "\<not> dryRun opts"
      and "writeFile d (target join t c f) (processFileContent (config opts) (content f))
             = (Some e, d')"
      and "install_files opts join t c (f # fs) acc d = (Inl e, d')"
  | (written) d' where "\<not> (existsSync d (target join t c f) \<and> \<not> force opts)"
      and "\<not> dryRun opts"
      and "writeFile d (target join t c f) (processFileContent (config opts) (content f))
             = (None, d')"
      and "install_files opts join t c (f # fs) acc d
             = install_files opts join t c fs (acc @ [target join t c f]) d'"
proof (cases "existsSync d (target join t c f) \<and> \<not> force opts")
  case True
  then have "install_files opts join t c (f # fs) acc d = (Inl (FileExists (target join t c f)), d)"
    by (simp add: install_files_Cons)
  with True show ?thesis by (intro conflict) simp_all
next
  case nc: False
  show ?thesis
  proof (cases "dryRun opts")
    case True
    with nc have "install_files opts join t c (f # fs) acc d
             = install_files opts join t c fs (acc @ [target join t c f]) d"
      by (auto simp: install_files_Cons)
    with nc True show ?thesis by (intro dry)
  next
    case nd: False
    obtain r d' where w:
      "writeFile d (target join t c f) (processFileContent (config opts) (content f)) = (r, d')"
      by (cases "writeFile d (target join t c f) (processFileContent (config opts) (content f))")
    show ?thesis
    proof (cases r)
      case None
      with nc nd w have "install_files opts join t c (f # fs) acc d
             = install_files opts join t c fs (acc @ [target join t c f]) d'"
        by (auto simp: install_files_Cons)
      with nc nd w None show ?thesis by (intro written [of d']) simp_all
    next
      case (Some e)
      with nc nd w have "install_files opts join t c (f # fs) acc d = (Inl e, d')"
        by (auto simp: install_files_Cons)
      with nc nd w Some show ?thesis by (intro failed [of e d']) simp_all
    qed
  qed
qed

lemma install_files_dry:
  "dryRun opts \<Longrightarrow> snd (install_files opts join t c fs acc d) = d"
proof (induction fs arbitrary: acc)
  case Nil
  show ?case by simp
next
  case (Cons f fs)
  show ?case
    by (rule install_files_step [of d join t c f opts fs acc])
       (use Cons in \<open>simp_all\<close>)
qed

lemma install_files_grows: "grows d (snd (install_files opts join t c fs acc d))"
proof (induction fs arbitrary: acc d)
  case Nil
  show ?case by simp
next
  case (Cons f fs)
  show ?case
  proof (rule install_files_step [of d join t c f opts fs acc])
    fix e d'
    assume "writeFile d (target join t c f) (processFileContent (config opts) (content f))
             = (Some e, d')"
      and "install_files opts join t c (f # fs) acc d = (Inl e, d')"
    with grows_writeFile [of d "target join t c f" "processFileContent (config opts) (content f)"]
    show ?thesis by simp
  next
    fix d'
    assume "writeFile d (target join t c f) (processFileContent (config opts) (content f))
             = (None, d')"
      and r: "install_files opts join t c (f # fs) acc d
             = install_files opts join t c fs (acc @ [target join t c f]) d'"
    with grows_writeFile [of d "target join t c f" "processFileContent (config opts) (content f)"]
    have "grows d d'" by simp
    from grows_trans [OF this Cons.IH [of d' "acc @ [target join t c f]"]] show ?thesis
      unfolding r .
  qed (use Cons in \<open>simp_all\<close>)
qed

lemma install_files_keeps:
  assumes "\<not> force opts" and "node_at d q = Some (File x)"
  shows "node_at (snd (install_files opts join t c fs acc d)) q = Some (File x)"
  using assms(2)
proof (induction fs arbitrary: acc d)
  case Nil
  then show ?case by simp
next
  case (Cons f fs)
  let ?s = "processFileContent (config opts) (content f)"
  show ?case
  proof (rule install_files_step [of d join t c f opts fs acc])
    fix e d'
    assume "\<not> (existsSync d (target join t c f) \<and> \<not> force opts)"
      and "writeFile d (target join t c f) ?s = (Some e, d')"
      and "install_files opts join t c (f # fs) acc d = (Inl e, d')"
    with writeFile_keeps [OF Cons.prems, of "target join t c f" ?s] assms(1)
    show ?thesis by simp
  next
    fix d'
    assume "\<not> (existsSync d (target join t c f) \<and> \<not> force opts)"
      and "writeFile d (target join t c f) ?s = (None, d')"
      and r: "install_files opts join t c (f # fs) acc d
             = install_files opts join t c fs (acc @ [target join t c f]) d'"
    with writeFile_keeps [OF Cons.prems, of "target join t c f" ?s] assms(1)
    have "node_at d' q = Some (File x)" by simp
    from Cons.IH [OF this] show ?thesis unfolding r .
  qed (use Cons in \<open>simp_all\<close>)
qed

lemma install_files_Inr:
  "install_files opts join t c fs acc d = (Inr out, d') \<Longrightarrow> out = acc @ map (target join t c) fs"
proof (induction fs arbitrary: acc d)
  case Nil
  then show ?case by simp
next
  case (Cons f fs)
  show ?case
    by (rule install_files_step [of d join t c f opts fs acc])
       (use Cons in \<open>auto\<close>)
qed

lemma install_files_Inl:
  "install_files opts join t c fs acc d = (Inl e, d') \<Longrightarrow>
     (\<exists>f \<in> set fs. e = FileExists (target join t c f) \<and> existsSync d' (target join t c f)) \<and>
       \<not> force opts \<or>
     e \<in> range SystemError \<and> \<not> dryRun opts"
proof (induction fs arbitrary: acc d)
  case Nil
  then show ?case by simp
next
  case (Cons f fs)
  show ?case
  proof (rule install_files_step [of d join t c f opts fs acc])
    fix e1 d1
    assume "writeFile d (target join t c f) (processFileContent (config opts) (content f))
             = (Some e1, d1)"
      and "install_files opts join t c (f # fs) acc d = (Inl e1, d1)" and "\<not> dryRun opts"
    with Cons.prems writeFile_error [of d "target join t c f" _ e1 d1] show ?thesis by simp
  qed (use Cons in \<open>auto\<close>)
qed

lemma install_files_conflict:
  assumes "\<not> force opts" and "\<exists>f \<in> set fs. existsSync d (target join t c f)"
  shows "\<exists>e d'. install_files opts join t c fs acc d = (Inl e, d')"
  using assms(2)
proof (induction fs arbitrary: acc d)
  case Nil
  then show ?case by simp
next
  case (Cons f fs)
  show ?case
  proof (rule install_files_step [of d join t c f opts fs acc])
    assume nc: "\<not> (existsSync d (target join t c f) \<and> \<not> force opts)"
      and r: "install_files opts join t c (f # fs) acc d
             = install_files opts join t c fs (acc @ [target join t c f]) d"
    from nc assms(1) Cons.prems have "\<exists>g \<in> set fs. existsSync d (target join t c g)" by auto
    from Cons.IH [OF this] show ?thesis unfolding r .
  next
    fix d'
    assume nc: "\<not> (existsSync d (target join t c f) \<and> \<not> force opts)"
      and w: "writeFile d (target join t c f) (processFileContent (config opts) (content f))
             = (None, d')"
      and r: "install_files opts join t c (f # fs) acc d
             = install_files opts join t c fs (acc @ [target join t c f]) d'"
    from nc assms(1) Cons.prems obtain g where g: "g \<in> set fs" "existsSync d (target join t c g)"
      by auto
    from grows_writeFile [of d "target join t c f" "processFileContent (config opts) (content f)"] w
    have "grows d d'" by simp
    from grows_exists [OF this g(2)] g(1) have "\<exists>g \<in> set fs. existsSync d' (target join t c g)"
      by blast
    from Cons.IH [OF this] show ?thesis unfolding r .
  qed simp_all
qed

lemma install_files_append:
  "install_files opts join t c (pre @ rest) acc d =
     (case install_files opts join t c pre acc d of
        (Inl e, d') \<Rightarrow> (Inl e, d')
      | (Inr out, d') \<Rightarrow> install_files opts join t c rest out d')"
proof (induction pre arbitrary: acc d)
  case Nil
  show ?case by simp
next
  case (Cons f pre)
  have a: "(f # pre) @ rest = f # (pre @ rest)" by simp
  show ?case
    unfolding a
    by (rule install_files_step [of d join t c f opts "pre @ rest" acc];
        rule install_files_step [of d join t c f opts pre acc])
       (use Cons in \<open>simp_all\<close>)
qed

lemma install_files_written:
  assumes "\<not> force opts" and "\<not> dryRun opts"
    and "install_files opts join t c fs acc d = (Inr out, d')" and "g \<in> set fs"
  shows "node_at d' (locate d (target join t c g))
           = Some (File (processFileContent (config opts) (content g)))"
  using assms(3,4)
proof (induction fs arbitrary: acc d)
  case Nil
  then show ?case by simp
next
  case (Cons f fs)
  let ?s = "processFileContent (config opts) (content f)"
  show ?case
  proof (rule install_files_step [of d join t c f opts fs acc])
    fix d1
    assume w: "writeFile d (target join t c f) ?s = (None, d1)"
      and r: "install_files opts join t c (f # fs) acc d
             = install_files opts join t c fs (acc @ [target join t c f]) d1"
    from r Cons.prems(1)
    have run: "install_files opts join t c fs (acc @ [target join t c f]) d1 = (Inr out, d')"
      by simp
    have c: "cwd d1 = cwd d" using writeFile_cwd [of d "target join t c f" ?s] w by simp
    show ?thesis
    proof (cases "g = f")
      case True
      from writeFile_written [OF w]
      have "node_at d1 (locate d (target join t c f)) = Some (File ?s)" by simp
      from install_files_keeps [OF assms(1) this, of join t c fs "acc @ [target join t c f]"] run
      show ?thesis by (simp add: True)
    next
      case False
      with Cons.prems(2) have "g \<in> set fs" by simp
      from Cons.IH [OF run this] locate_cwd [OF c] show ?thesis by simp
    qed
  qed (use Cons assms in \<open>simp_all\<close>)
qed

lemma message_FileExists: "message e = ''File already exists: '' @ p \<longleftrightarrow> e = FileExists p"
proof (cases e)
  case (SystemError code)
  then show ?thesis by (cases code) simp_all
qed simp_all


text \<open>Installing files keeps the tree shape of the disk.\<close>

lemma install_files_well_formed:
  "well_formed d \<Longrightarrow> well_formed (snd (install_files opts join t c fs acc d))"
proof (induction fs arbitrary: acc d)
  case Nil
  then show ?case by simp
next
  case (Cons f fs)
  let ?s = "processFileContent (config opts) (content f)"
  note wf = well_formed_writeFile [OF Cons.prems, of "target join t c f" ?s]
  show ?case
  proof (rule install_files_step [of d join t c f opts fs acc])
    fix e d'
    assume "writeFile d (target join t c f) ?s = (Some e, d')"
      and "install_files opts join t c (f # fs) acc d = (Inl e, d')"
    with wf show ?thesis by simp
  next
    fix d'
    assume "writeFile d (target join t c f) ?s = (None, d')"
      and r: "install_files opts join t c (f # fs) acc d
             = install_files opts join t c fs (acc @ [target join t c f]) d'"
    with wf have "well_formed d'" by simp
    from Cons.IH [OF this] show ?thesis unfolding r .
  qed (use Cons in \<open>simp_all\<close>)
qed

lemma try_install_Inl:
  "install_files opts join t c (Component.files c) [] (disk st) = (Inl e, d') \<Longrightarrow>
     try_install opts join c t st
       = (\<lparr>component = name c, success = False, files = None, dependencies = None,
           error = Some (message e)\<rparr>, st\<lparr>disk := d'\<rparr>)"
  by (simp add: try_install_def installComponent_def)

lemma try_install_Inr:
  "install_files opts join t c (Component.files c) [] (disk st) = (Inr out, d') \<Longrightarrow>
     try_install opts join c t st
       = (\<lparr>component = name c, success = True, files = Some out,
           dependencies = Some (Component.dependencies c
              @ (case devDependencies c of None \<Rightarrow> [] | Some ds \<Rightarrow> ds)),
           error = None\<rparr>,
          st\<lparr>disk := d',
             installedDeps := foldl add_dep (installedDeps st)
               (Component.dependencies c
                  @ (case devDependencies c of None \<Rightarrow> [] | Some ds \<Rightarrow> ds))\<rparr>)"
  by (simp add: try_install_def installComponent_def Let_def)

lemma try_install_disk:
  "disk (snd (try_install opts join c t st))
     = snd (install_files opts join t c (Component.files c) [] (disk st))"
  by (cases "install_files opts join t c (Component.files c) [] (disk st)";
      cases "fst (install_files opts join t c (Component.files c) [] (disk st))")
     (simp_all add: try_install_Inl try_install_Inr)


lemma install_each_acc:
  "install_each opts join t cs acc st
     = (acc @ fst (install_each opts join t cs [] st), snd (install_each opts join t cs [] st))"
proof (induction cs arbitrary: acc st)
  case Nil
  show ?case by simp
next
  case (Cons c cs)
  obtain r s1 where r: "try_install opts join c t st = (r, s1)" by (cases "try_install opts join c t st")
  show ?case
    using Cons.IH [of "acc @ [r]" s1] Cons.IH [of "[r]" s1] by (simp add: r)
qed

lemma install_each_append:
  "install_each opts join t (xs @ ys) acc st
     = install_each opts join t ys (fst (install_each opts join t xs acc st))
         (snd (install_each opts join t xs acc st))"
  by (induction xs arbitrary: acc st) (simp_all split: prod.splits)

lemma install_each_length:
  "length (fst (install_each opts join t cs acc st)) = length acc + length cs"
  by (induction cs arbitrary: acc st) (simp_all split: prod.splits)

lemma install_each_component:
  "map component (fst (install_each opts join t cs acc st)) = map component acc @ map name cs"
proof (induction cs arbitrary: acc st)
  case Nil
  show ?case by simp
next
  case (Cons c cs)
  obtain r s1 where r: "try_install opts join c t st = (r, s1)" by (cases "try_install opts join c t st")
  then have "component r = name c"
    by (auto simp: try_install_def split: prod.splits sum.splits simp: installComponent_def Let_def)
  with Cons.IH [of "acc @ [r]" s1] show ?case by (simp add: r)
qed

lemma install_each_nth:
  assumes "i < length cs"
  shows "fst (install_each opts join t cs [] st) ! i
     = fst (try_install opts join (cs ! i) t (snd (install_each opts join t (take i cs) [] st)))"
proof -
  let ?pre = "install_each opts join t (take i cs) [] st"
  obtain r s1 where r: "try_install opts join (cs ! i) t (snd ?pre) = (r, s1)"
    by (cases "try_install opts join (cs ! i) t (snd ?pre)")
  have cs: "cs = take i cs @ cs ! i # drop (Suc i) cs"
    using assms by (simp add: id_take_nth_drop)
  have "install_each opts join t cs [] st
      = install_each opts join t (cs ! i # drop (Suc i) cs) (fst ?pre) (snd ?pre)"
    by (subst cs) (rule install_each_append)
  also have "\<dots> = install_each opts join t (drop (Suc i) cs) (fst ?pre @ [r]) s1"
    by (simp add: r)
  also have "\<dots> = ((fst ?pre @ [r]) @ fst (install_each opts join t (drop (Suc i) cs) [] s1),
                   snd (install_each opts join t (drop (Suc i) cs) [] s1))"
    by (rule install_each_acc)
  finally have "fst (install_each opts join t cs [] st)
      = fst ?pre @ r # fst (install_each opts join t (drop (Suc i) cs) [] s1)"
    by simp
  moreover have "length (fst ?pre) = i"
    using assms by (simp add: install_each_length)
  ultimately show ?thesis
    by (simp add: r nth_append)
qed

text \<open>
  Claim C4. Once resolution has succeeded, \<open>installComponents\<close> does not throw: it
  returns one result for each resolved component, in resolution order, and the result
  at position \<open>i\<close> is the outcome of installing component \<open>i\<close> on the state left by
  the components before it, whether those succeeded or failed.
\<close>

theorem installComponents_results:
  assumes "resolveComponentsWithDependencies (registry opts) ids = Some (Inr cs)"
  shows "\<exists>results st'. installComponents opts join ids t st = Some (Inr results, st') \<and>
     length results = length cs \<and> map component results = map name cs \<and>
     (\<forall>i<length cs. results ! i
        = fst (try_install opts join (cs ! i) t (snd (install_each opts join t (take i cs) [] st))))"
proof -
  let ?run = "install_each opts join t cs [] st"
  have "installComponents opts join ids t st = Some (Inr (fst ?run), snd ?run)"
    using assms by (simp add: installComponents_def split: prod.splits)
  moreover have "length (fst ?run) = length cs"
    by (simp add: install_each_length)
  moreover have "map component (fst ?run) = map name cs"
    by (simp add: install_each_component)
  ultimately show ?thesis
    using install_each_nth [of _ cs opts join t st] by blast
qed

text \<open>
  Claim C6. If a requested identifier or an identifier reachable from the requested
  ones is unknown to the registry, \<open>installComponents\<close> returns, throwing the not-found
  error for such an identifier: there is no result, and the disk and the dependency set
  are as they were. The registry need not be finite.
\<close>

theorem installComponents_not_found:
  assumes unknown: "\<exists>k \<in> reachable (registry opts) ids. registry opts k = None"
  shows "\<exists>k. k \<in> reachable (registry opts) ids \<and> registry opts k = None \<and>
     installComponents opts join ids t st = Some (Inl (ComponentNotFound k), st)"
proof -
  from unknown obtain u where "u \<in> reachable (registry opts) ids" "registry opts u = None"
    by blast
  from resolve_not_found [OF this] obtain k
    where "resolveComponentsWithDependencies (registry opts) ids = Some (Inl (ComponentNotFound k))"
      and "registry opts k = None" and "k \<in> reachable (registry opts) ids"
    by blast
  then show ?thesis
    by (auto simp: installComponents_def)
qed


subsection \<open>Simulated and real runs\<close>

lemma install_files_dry_real:
  assumes dry: "dryRun opts" and g: "grows d0 d"
  shows "(\<forall>out. fst (install_files (opts\<lparr>dryRun := False\<rparr>) join t c fs acc d) = Inr out \<longrightarrow>
            fst (install_files opts join t c fs acc d0) = Inr out) \<and>
         (\<forall>p. fst (install_files (opts\<lparr>dryRun := False\<rparr>) join t c fs acc d)
                 = Inl (FileExists p) \<and> existsSync d0 p \<longrightarrow>
            fst (install_files opts join t c fs acc d0) = Inl (FileExists p))"
  using g
proof (induction fs arbitrary: acc d)
  case Nil
  show ?case by simp
next
  case (Cons f fs)
  let ?real = "opts\<lparr>dryRun := False\<rparr>"
  let ?p = "target join t c f"
  show ?case
  proof (rule install_files_step [of d join t c f ?real fs acc])
    assume ex: "existsSync d (target join t c f)" and nf: "\<not> force ?real"
      and r: "install_files ?real join t c (f # fs) acc d = (Inl (FileExists ?p), d)"
    from nf show ?thesis
      unfolding r by (auto simp: install_files_Cons)
  next
    assume "dryRun ?real"
    then show ?thesis by simp
  next
    fix e d'
    assume "writeFile d ?p (processFileContent (config ?real) (content f)) = (Some e, d')"
      and r: "install_files ?real join t c (f # fs) acc d = (Inl e, d')"
    from writeFile_error [OF this(1)] show ?thesis
      unfolding r by auto
  next
    fix d'
    assume nc: "\<not> (existsSync d ?p \<and> \<not> force ?real)"
      and w: "writeFile d ?p (processFileContent (config ?real) (content f)) = (None, d')"
      and r: "install_files ?real join t c (f # fs) acc d
             = install_files ?real join t c fs (acc @ [?p]) d'"
    from nc grows_exists [OF Cons.prems, of ?p] have "\<not> (existsSync d0 ?p \<and> \<not> force opts)"
      by auto
    with dry have s: "install_files opts join t c (f # fs) acc d0
        = install_files opts join t c fs (acc @ [?p]) d0"
      by (auto simp: install_files_Cons)
    from grows_writeFile [of d ?p "processFileContent (config ?real) (content f)"] w
    have "grows d d'" by simp
    from grows_trans [OF Cons.prems this] have "grows d0 d'" .
    from Cons.IH [OF this, of "acc @ [?p]"] show ?thesis
      unfolding r s .
  qed
qed

lemma try_install_dry:
  "dryRun opts \<Longrightarrow> disk (snd (try_install opts join c t st)) = disk st"
  by (simp add: try_install_disk install_files_dry)

lemma try_install_grows:
  "grows d0 (disk st) \<Longrightarrow> grows d0 (disk (snd (try_install opts join c t st)))"
  using install_files_grows [of "disk st" opts join t c "Component.files c" "[]"]
  by (auto simp: try_install_disk intro: grows_trans)

lemma try_install_dry_real:
  assumes dry: "dryRun opts" and g: "grows (disk s0) (disk s1)"
  shows "(success (fst (try_install (opts\<lparr>dryRun := False\<rparr>) join c t s1)) \<longrightarrow>
            fst (try_install opts join c t s0)
              = fst (try_install (opts\<lparr>dryRun := False\<rparr>) join c t s1)) \<and>
         (\<forall>p. error (fst (try_install (opts\<lparr>dryRun := False\<rparr>) join c t s1))
                 = Some (''File already exists: '' @ p) \<and> existsSync (disk s0) p \<longrightarrow>
            fst (try_install opts join c t s0)
              = fst (try_install (opts\<lparr>dryRun := False\<rparr>) join c t s1))"
proof -
  let ?real = "opts\<lparr>dryRun := False\<rparr>"
  obtain rr d1 where real:
    "install_files ?real join t c (Component.files c) [] (disk s1) = (rr, d1)"
    by (cases "install_files ?real join t c (Component.files c) [] (disk s1)")
  obtain rd d2 where sim:
    "install_files opts join t c (Component.files c) [] (disk s0) = (rd, d2)"
    by (cases "install_files opts join t c (Component.files c) [] (disk s0)")
  note both = install_files_dry_real [OF dry g, of join t c "Component.files c" "[]"]
  show ?thesis
  proof (cases rr)
    case (Inr out)
    with both real sim have "rd = Inr out" by simp
    with Inr real sim show ?thesis
      by (simp add: try_install_Inr)
  next
    case (Inl e)
    with real have r1: "fst (try_install ?real join c t s1)
        = \<lparr>component = name c, success = False, files = None, dependencies = None,
           error = Some (message e)\<rparr>"
      by (simp add: try_install_Inl)
    show ?thesis
    proof (intro conjI impI allI)
      assume "success (fst (try_install ?real join c t s1))"
      then show "fst (try_install opts join c t s0) = fst (try_install ?real join c t s1)"
        unfolding r1 by simp
    next
      fix p
      assume a: "error (fst (try_install ?real join c t s1))
                 = Some (''File already exists: '' @ p) \<and> existsSync (disk s0) p"
      then have "message e = ''File already exists: '' @ p"
        unfolding r1 by simp
      then have e: "e = FileExists p" by (simp only: message_FileExists)
      with both real sim Inl a have "rd = Inl (FileExists p)" by simp
      with sim have "fst (try_install opts join c t s0)
        = \<lparr>component = name c, success = False, files = None, dependencies = None,
           error = Some (message e)\<rparr>"
        by (simp add: try_install_Inl e)
      then show "fst (try_install opts join c t s0) = fst (try_install ?real join c t s1)"
        unfolding r1 .
    qed
  qed
qed

lemma install_each_dry:
  "dryRun opts \<Longrightarrow> disk (snd (install_each opts join t cs acc st)) = disk st"
proof (induction cs arbitrary: acc st)
  case Nil
  show ?case by simp
next
  case (Cons c cs)
  obtain r s1 where r: "try_install opts join c t st = (r, s1)" by (cases "try_install opts join c t st")
  with try_install_dry [OF Cons.prems, of join c t st] have "disk s1 = disk st" by simp
  with Cons.IH [OF Cons.prems, of "acc @ [r]" s1] show ?case by (simp add: r)
qed

lemma install_each_grows:
  "grows d0 (disk st) \<Longrightarrow> grows d0 (disk (snd (install_each opts join t cs acc st)))"
proof (induction cs arbitrary: acc st)
  case Nil
  then show ?case by simp
next
  case (Cons c cs)
  obtain r s1 where r: "try_install opts join c t st = (r, s1)" by (cases "try_install opts join c t st")
  with try_install_grows [OF Cons.prems, of opts join c t] have "grows d0 (disk s1)" by simp
  from Cons.IH [OF this, of "acc @ [r]"] show ?case by (simp add: r)
qed

text \<open>
  Claim C7, amended. With \<open>dryRun\<close> set, \<open>installComponents\<close> leaves the disk as it
  was. It returns one result for each resolved component, as the real run from the same
  state does, for the same components. Where the real run reports success for a
  component, the simulated run reports the same result: the paths, the success flag and
  the dependency lists. Where the real run reports \<^verbatim>\<open>File already exists\<close> for a path
  that was there before the run, the simulated run reports the same failure. For a
  component on which the real run fails otherwise, at a path that the run itself has
  made or with an error of the operating system, the simulated run may report success.
\<close>

theorem dry_run_preview:
  assumes dry: "dryRun opts"
    and res: "resolveComponentsWithDependencies (registry opts) ids = Some (Inr cs)"
  shows "\<exists>preview st1 real st2.
     installComponents opts join ids t st = Some (Inr preview, st1) \<and>
     disk st1 = disk st \<and>
     installComponents (opts\<lparr>dryRun := False\<rparr>) join ids t st = Some (Inr real, st2) \<and>
     length preview = length cs \<and> length real = length cs \<and>
     map component preview = map name cs \<and> map component real = map name cs \<and>
     (\<forall>i<length cs.
        (success (real ! i) \<longrightarrow> preview ! i = real ! i) \<and>
        (\<forall>p. error (real ! i) = Some (''File already exists: '' @ p) \<and> existsSync (disk st) p
           \<longrightarrow> preview ! i = real ! i))"
proof -
  let ?real = "opts\<lparr>dryRun := False\<rparr>"
  let ?d = "install_each opts join t cs [] st"
  let ?r = "install_each ?real join t cs [] st"
  have d: "installComponents opts join ids t st = Some (Inr (fst ?d), snd ?d)"
    using res by (simp add: installComponents_def split: prod.splits)
  have r: "installComponents ?real join ids t st = Some (Inr (fst ?r), snd ?r)"
    using res by (simp add: installComponents_def split: prod.splits)
  have same: "(success (fst ?r ! i) \<longrightarrow> fst ?d ! i = fst ?r ! i) \<and>
        (\<forall>p. error (fst ?r ! i) = Some (''File already exists: '' @ p) \<and> existsSync (disk st) p
           \<longrightarrow> fst ?d ! i = fst ?r ! i)" if i: "i < length cs" for i
  proof -
    let ?s0 = "snd (install_each opts join t (take i cs) [] st)"
    let ?s1 = "snd (install_each ?real join t (take i cs) [] st)"
    have 0: "disk ?s0 = disk st" using dry by (rule install_each_dry)
    have "grows (disk st) (disk ?s1)" by (rule install_each_grows) simp
    with 0 have "grows (disk ?s0) (disk ?s1)" by simp
    from try_install_dry_real [OF dry this, of join "cs ! i" t] show ?thesis
      unfolding install_each_nth [OF i] 0 .
  qed
  from d r same install_each_dry [OF dry, of join t cs "[]" st] show ?thesis
    by (simp add: install_each_length install_each_component)
qed

section \<open>Resolution: order and termination\<close>

text \<open>
  Claim C1. When the identifiers reachable from the requested ones are finitely many
  and all known to the registry (the graph may be acyclic or not),
  \<open>resolveComponentsWithDependencies\<close> returns: the
  descriptors \<open>cs\<close> are those of the identifiers \<open>ks\<close>, in the order in which they were
  fetched and entered the resolved mapping; \<open>ks\<close> holds every reachable identifier
  exactly once; it starts with the requested identifiers in request order, and no
  requested identifier comes later; as a whole it is the list of first occurrences in
  the requested identifiers followed by the dependency lists of the resolved components
  in resolution order, which is breadth-first discovery order. When the registry files
  each descriptor under its own \<open>id\<close>, \<open>ks\<close> is the list of the \<open>id\<close> fields of \<open>cs\<close>.
\<close>

theorem resolve_order:
  assumes fin: "finite (reachable reg ids)" and known: "reachable reg ids \<subseteq> dom reg"
  shows "\<exists>cs tr ks rest.
     resolve_trace reg ids = Some (Inr cs, tr) \<and>
     resolveComponentsWithDependencies reg ids = Some (Inr cs) \<and>
     ks = fetched tr \<and> map reg ks = map Some cs \<and>
     distinct ks \<and> set ks = reachable reg ids \<and>
     ks = first_seen (ids @ concat (map deps_of cs)) \<and>
     ks = first_seen ids @ rest \<and> set rest \<inter> set ids = {} \<and>
     ((\<forall>k c. reg k = Some c \<longrightarrow> Component.id c = k) \<longrightarrow> map Component.id cs = ks)"
proof -
  from fin have "finite (reachable reg ids \<inter> dom reg)" by simp
  then show ?thesis
  proof (cases rule: resolve_trace_cases)
  case (not_found k tr)
  with known show ?thesis by auto
next
  case (resolved cs tr)
  let ?ks = "fetched tr"
  let ?rest = "filter (\<lambda>y. y \<notin> set ids) (first_seen (concat (map deps_of cs)))"
  have 1: "resolveComponentsWithDependencies reg ids = Some (Inr cs)"
    using resolved(1) by (simp add: resolveComponentsWithDependencies_def)
  have 2: "?ks = first_seen ids @ ?rest"
    using resolved(6) by (simp add: first_seen_append)
  have 3: "set ?rest \<inter> set ids = {}" by auto
  have 4: "map Component.id cs = ?ks" if c: "\<forall>k c. reg k = Some c \<longrightarrow> Component.id c = k"
  proof (rule nth_equalityI)
    from resolved(5) have "length (map reg ?ks) = length (map Some cs)" by simp
    then show len: "length (map Component.id cs) = length ?ks" by simp
    fix i
    assume i: "i < length (map Component.id cs)"
    from resolved(5) have "map reg ?ks ! i = map Some cs ! i" by simp
    with i len have "reg (?ks ! i) = Some (cs ! i)" by simp
    with c i show "map Component.id cs ! i = ?ks ! i" by simp
  qed
  from resolved 1 2 3 4 show ?thesis by blast
  qed
qed

lemma two_cycle_reachable:
  assumes "A \<noteq> B" "reg A = Some a" "reg B = Some b" "deps_of a = [B]" "deps_of b = [A]"
    and "ids \<noteq> []" "set ids \<subseteq> {A, B}"
  shows "reachable reg ids = {A, B}"
proof
  show "reachable reg ids \<subseteq> {A, B}"
  proof
    fix x assume "x \<in> reachable reg ids"
    then show "x \<in> {A, B}"
      using assms by (induction rule: reachable.induct) auto
  qed
  from assms(6,7) obtain x where x: "x \<in> set ids" "x = A \<or> x = B"
    by (cases ids) auto
  have "A \<in> reachable reg ids \<and> B \<in> reachable reg ids"
  proof (cases "x = A")
    case True
    with x have "A \<in> reachable reg ids" by (auto intro: reachable.requested)
    moreover from this assms(2,4) have "B \<in> reachable reg ids"
      by (auto intro: reachable.dependency)
    ultimately show ?thesis ..
  next
    case False
    with x have "B \<in> reachable reg ids" by (auto intro: reachable.requested)
    moreover from this assms(3,5) have "A \<in> reachable reg ids"
      by (auto intro: reachable.dependency)
    ultimately show ?thesis by simp
  qed
  then show "{A, B} \<subseteq> reachable reg ids" by simp
qed

text \<open>
  Claim C2. On every finite registry, cyclic or not, the resolver terminates, with a
  result or with the not-found error, and its trace never fetches and never queues an
  identifier that is already resolved. On two components that depend on each other it
  returns exactly these two descriptors, each once.
\<close>

theorem resolve_terminates:
  assumes fin: "finite (dom reg)"
  shows "\<exists>res tr. resolve_trace reg ids = Some (res, tr) \<and>
     resolveComponentsWithDependencies reg ids = Some res \<and>
     no_revisit [] tr \<and>
     (A \<noteq> B \<and> reg A = Some a \<and> reg B = Some b \<and> deps_of a = [B] \<and> deps_of b = [A] \<and>
      ids \<noteq> [] \<and> set ids \<subseteq> {A, B}
        \<longrightarrow> (\<exists>cs. res = Inr cs \<and> distinct cs \<and> set cs = {a, b}))"
proof -
  from fin have "finite (reachable reg ids \<inter> dom reg)" by simp
  then show ?thesis
  proof (cases rule: resolve_trace_cases)
  case (not_found k tr)
  have "\<not> (A \<noteq> B \<and> reg A = Some a \<and> reg B = Some b \<and> deps_of a = [B] \<and> deps_of b = [A] \<and>
      ids \<noteq> [] \<and> set ids \<subseteq> {A, B})"
  proof
    assume c: "A \<noteq> B \<and> reg A = Some a \<and> reg B = Some b \<and> deps_of a = [B] \<and> deps_of b = [A] \<and>
      ids \<noteq> [] \<and> set ids \<subseteq> {A, B}"
    then have "reachable reg ids = {A, B}"
      using two_cycle_reachable [of A B reg a b ids] by blast
    with not_found(3,4) c show False by auto
  qed
  with not_found(1,2) show ?thesis
    by (simp add: resolveComponentsWithDependencies_def)
next
  case (resolved cs tr)
  let ?ks = "fetched tr"
  have "distinct cs \<and> set cs = {a, b}"
    if c: "A \<noteq> B \<and> reg A = Some a \<and> reg B = Some b \<and> deps_of a = [B] \<and> deps_of b = [A] \<and>
      ids \<noteq> [] \<and> set ids \<subseteq> {A, B}"
  proof -
    from c have r: "reachable reg ids = {A, B}"
      using two_cycle_reachable [of A B reg a b ids] by blast
    from c have ab: "a \<noteq> b" by auto
    have cs: "cs = map (the \<circ> reg) ?ks"
    proof -
      have "map the (map reg ?ks) = map the (map Some cs)" by (simp only: resolved(5))
      then show ?thesis by (simp add: comp_def)
    qed
    have "inj_on (the \<circ> reg) (set ?ks)"
      using c ab by (auto simp: resolved(4) r inj_on_def)
    with resolved(3) have "distinct cs"
      unfolding cs by (simp add: distinct_map)
    moreover have "set cs = {a, b}"
      unfolding cs using c by (simp add: resolved(4) r image_comp [symmetric])
    ultimately show ?thesis ..
  qed
  with resolved(1,2) show ?thesis
    by (simp add: resolveComponentsWithDependencies_def)
  qed
qed

section \<open>The theorems on the example projects\<close>

lemmas demo_defs =
  demo_registry_def demo_closure_def page_descriptor_def form_descriptor_def
  input_descriptor_def card_descriptor_def button_descriptor_def simple_def
  cycle_registry_def a_descriptor_def b_descriptor_def broken_registry_def
  twice_def twice_registry_def nested_def dirc_def deep_def

lemmas run_defs =
  resolveComponentsWithDependencies_def resolve_trace_def resolve_loop.simps
  getComponent_def has_def deps_of_def

lemmas disk_defs =
  existsSync_def writeFile_def ensureDir_def node_at_def is_file_def locate_def dir_of_def
  walk_def enter_def segments_def absolute_def trailing_def

lemmas install_defs =
  installComponents_def try_install_def installComponent_def install_files.simps
  demo_options_def slash_join_def add_dep_def used_state_def used_disk_def empty_state_def
  ts_config_def processFileContent_def Let_def disk_defs

lemma demo_trace:
  "resolve_trace demo_registry [''page'', ''form'']
     = Some (Inr demo_closure,
         [Fetch ''page'', Push ''card'', Push ''form'', Fetch ''form'', Push ''button'',
          Push ''input'', Fetch ''card'', Push ''button'', Fetch ''button'', Fetch ''input''])"
  by (simp add: run_defs demo_defs)

lemma demo_resolved:
  "resolveComponentsWithDependencies demo_registry [''page'', ''form''] = Some (Inr demo_closure)"
  by (simp add: resolveComponentsWithDependencies_def demo_trace)

lemma demo_known: "reachable demo_registry [''page'', ''form''] \<subseteq> dom demo_registry"
proof
  fix x
  assume "x \<in> reachable demo_registry [''page'', ''form'']"
  then show "x \<in> dom demo_registry"
    by (induction rule: reachable.induct)
      (auto simp: demo_defs deps_of_def split: if_splits)
qed

lemma demo_ids: "demo_registry k = Some c \<Longrightarrow> Component.id c = k"
  by (auto simp: demo_defs split: if_splits)

text \<open>
  The theorem of claim C1 on the example registry: requested \<^verbatim>\<open>page\<close> and \<^verbatim>\<open>form\<close>
  come first, then \<^verbatim>\<open>card\<close>, \<^verbatim>\<open>button\<close> and \<^verbatim>\<open>input\<close> as they are discovered.
\<close>

theorem resolve_order_witness:
  "finite (reachable demo_registry [''page'', ''form'']) \<and>
   reachable demo_registry [''page'', ''form''] \<subseteq> dom demo_registry \<and>
   resolveComponentsWithDependencies demo_registry [''page'', ''form'']
     = Some (Inr [page_descriptor, form_descriptor, card_descriptor, button_descriptor,
                  input_descriptor]) \<and>
   map Component.id [page_descriptor, form_descriptor, card_descriptor, button_descriptor,
                     input_descriptor] = [''page'', ''form'', ''card'', ''button'', ''input''] \<and>
   reachable demo_registry [''page'', ''form'']
     = {''page'', ''form'', ''card'', ''button'', ''input''}"
proof -
  have "finite (dom demo_registry)" by (simp add: demo_registry_def)
  with demo_known have fin: "finite (reachable demo_registry [''page'', ''form''])"
    by (rule finite_subset)
  from resolve_order [OF fin demo_known] obtain cs tr ks
    where "resolveComponentsWithDependencies demo_registry [''page'', ''form''] = Some (Inr cs)"
      and "set ks = reachable demo_registry [''page'', ''form'']"
      and "(\<forall>k c. demo_registry k = Some c \<longrightarrow> Component.id c = k) \<longrightarrow> map Component.id cs = ks"
    by blast
  with demo_resolved demo_ids
  have "reachable demo_registry [''page'', ''form''] = set (map Component.id demo_closure)"
    by auto
  then have "reachable demo_registry [''page'', ''form'']
     = {''page'', ''form'', ''card'', ''button'', ''input''}"
    by (simp add: demo_defs insert_commute)
  with fin demo_known demo_resolved show ?thesis
    by (simp add: demo_closure_def) (simp add: demo_defs)
qed

lemma cycle_trace:
  "resolve_trace cycle_registry [''a'']
     = Some (Inr [a_descriptor, b_descriptor], [Fetch ''a'', Push ''b'', Fetch ''b''])"
  by (simp add: run_defs demo_defs)

text \<open>
  The theorem of claim C2 on two components that depend on each other.
\<close>

theorem resolve_terminates_witness:
  "finite (dom cycle_registry) \<and>
   cycle_registry ''a'' = Some a_descriptor \<and> cycle_registry ''b'' = Some b_descriptor \<and>
   deps_of a_descriptor = [''b''] \<and> deps_of b_descriptor = [''a''] \<and>
   resolve_trace cycle_registry [''a'']
     = Some (Inr [a_descriptor, b_descriptor], [Fetch ''a'', Push ''b'', Fetch ''b'']) \<and>
   no_revisit [] [Fetch ''a'', Push ''b'', Fetch ''b''] \<and>
   distinct [a_descriptor, b_descriptor] \<and>
   set [a_descriptor, b_descriptor] = {a_descriptor, b_descriptor}"
proof -
  have fin: "finite (dom cycle_registry)" by (simp add: cycle_registry_def)
  have h: "''a'' \<noteq> ''b'' \<and> cycle_registry ''a'' = Some a_descriptor \<and>
     cycle_registry ''b'' = Some b_descriptor \<and>
     deps_of a_descriptor = [''b''] \<and> deps_of b_descriptor = [''a''] \<and>
     [''a''] \<noteq> [] \<and> set [''a''] \<subseteq> {''a'', ''b''}"
    by (simp add: demo_defs deps_of_def)
  from resolve_terminates [OF fin, of "[''a'']" "''a''" "''b''" a_descriptor b_descriptor] h
  obtain res tr cs where "resolve_trace cycle_registry [''a''] = Some (res, tr)"
    and "no_revisit [] tr" and "res = Inr cs" and "distinct cs" and "set cs = {a_descriptor, b_descriptor}"
    by blast
  with cycle_trace fin h show ?thesis by simp
qed

text \<open>The example disks are trees.\<close>

lemma used_disk_well_formed: "well_formed used_disk"
  unfolding well_formed_def
proof (intro allI impI)
  fix q r
  assume "nodes used_disk q \<noteq> None" and "strict_prefix r q"
  then show "node_at used_disk r = Some Dir"
    by (auto simp: used_disk_def node_at_def strict_prefix_def prefix_Cons split: if_splits)
qed

lemma empty_disk_well_formed: "well_formed (disk empty_state)"
  by (simp add: well_formed_def empty_state_def)

text \<open>
  The disk model on three components whose files meet each other. A directory made for
  an earlier file of the component is found to exist when it is the target of a later
  file. With \<open>force\<close> set the check is skipped and the write on the directory fails in the
  operating system. A file written earlier stands where a later file needs a directory.
\<close>

lemma dirc_conflict:
  "fst (try_install (demo_options demo_registry False) slash_join dirc ''ui'' empty_state)
     = \<lparr>component = ''dirc'', success = False, files = None, dependencies = None,
         error = Some ''File already exists: ui/dirc/sub''\<rparr>"
  by (simp add: install_defs demo_defs replaceAll_same)

lemma dirc_forced:
  "fst (try_install ((demo_options demo_registry False)\<lparr>force := True\<rparr>) slash_join dirc ''ui'' empty_state)
     = \<lparr>component = ''dirc'', success = False, files = None, dependencies = None,
         error = Some ''EISDIR: illegal operation on a directory''\<rparr>"
  by (simp add: install_defs demo_defs replaceAll_same)

lemma deep_conflict:
  "fst (try_install (demo_options demo_registry False) slash_join deep ''ui'' empty_state)
     = \<lparr>component = ''deep'', success = False, files = None, dependencies = None,
         error = Some ''ENOTDIR: not a directory''\<rparr>"
  by (simp add: install_defs demo_defs replaceAll_same)




lemma demo_real:
  "map_option fst (installComponents (demo_options demo_registry False) slash_join
      [''page'', ''form''] ''ui'' used_state)
     = Some (Inr
        [\<lparr>component = ''page'', success = True, files = Some [''ui/page/page.svelte''],
          dependencies = Some [], error = None\<rparr>,
         \<lparr>component = ''form'', success = True, files = Some [''ui/form/form.svelte''],
          dependencies = Some [''zod''], error = None\<rparr>,
         \<lparr>component = ''Card'', success = False, files = None, dependencies = None,
          error = Some ''File already exists: ui/card/card.css''\<rparr>,
         \<lparr>component = ''Button'', success = True, files = Some [''ui/button/button.svelte''],
          dependencies = Some [''clsx''], error = None\<rparr>,
         \<lparr>component = ''input'', success = True, files = Some [''ui/input/input.svelte''],
          dependencies = Some [], error = None\<rparr>])"
  by (simp add: installComponents_def demo_options_def demo_resolved)
     (simp add: install_defs demo_defs replaceAll_same)

text \<open>
  The theorem of claim C4 on a run whose third component fails: the two components
  after it are installed all the same.
\<close>

theorem installComponents_results_witness:
  "resolveComponentsWithDependencies (registry (demo_options demo_registry False))
      [''page'', ''form''] = Some (Inr demo_closure) \<and>
   map name demo_closure = [''page'', ''form'', ''Card'', ''Button'', ''input''] \<and>
   map_option fst (installComponents (demo_options demo_registry False) slash_join
      [''page'', ''form''] ''ui'' used_state)
     = Some (Inr
        [\<lparr>component = ''page'', success = True, files = Some [''ui/page/page.svelte''],
          dependencies = Some [], error = None\<rparr>,
         \<lparr>component = ''form'', success = True, files = Some [''ui/form/form.svelte''],
          dependencies = Some [''zod''], error = None\<rparr>,
         \<lparr>component = ''Card'', success = False, files = None, dependencies = None,
          error = Some ''File already exists: ui/card/card.css''\<rparr>,
         \<lparr>component = ''Button'', success = True, files = Some [''ui/button/button.svelte''],
          dependencies = Some [''clsx''], error = None\<rparr>,
         \<lparr>component = ''input'', success = True, files = Some [''ui/input/input.svelte''],
          dependencies = Some [], error = None\<rparr>])"
proof -
  have r: "resolveComponentsWithDependencies (registry (demo_options demo_registry False))
      [''page'', ''form''] = Some (Inr demo_closure)"
    by (simp add: demo_options_def demo_resolved)
  from installComponents_results [OF r, of slash_join "''ui''" used_state] r demo_real
  show ?thesis
    by (simp add: demo_defs)
qed

text \<open>
  The theorem of claim C6 on a registry that lacks the dependency of the requested
  component.
\<close>

theorem installComponents_not_found_witness:
  "''button'' \<in> reachable (registry (demo_options broken_registry False)) [''card''] \<and>
   registry (demo_options broken_registry False) ''button'' = None \<and>
   installComponents (demo_options broken_registry False) slash_join [''card''] ''ui'' used_state
     = Some (Inl (ComponentNotFound ''button''), used_state)"
proof -
  let ?reg = "registry (demo_options broken_registry False)"
  have reg: "?reg = broken_registry" by (simp add: demo_options_def)
  have "''card'' \<in> reachable ?reg [''card'']" by (rule reachable.requested) simp
  then have b: "''button'' \<in> reachable ?reg [''card'']"
    unfolding reg
    by (rule reachable.dependency [where c = card_descriptor])
       (simp_all add: demo_defs deps_of_def)
  have n: "?reg ''button'' = None" unfolding reg by (simp add: broken_registry_def)
  have e: "installComponents (demo_options broken_registry False) slash_join [''card''] ''ui'' used_state
     = Some (Inl (ComponentNotFound ''button''), used_state)"
    by (simp add: installComponents_def demo_options_def run_defs demo_defs)
  from b n have "\<exists>k \<in> reachable ?reg [''card'']. ?reg k = None" by blast
  from installComponents_not_found [OF this, of slash_join "''ui''" used_state] b n e
  show ?thesis by blast
qed

text \<open>
  The theorem of claim C7 on the example registry: the one failure of the real run is
  at a path that was on the disk before, and the simulated run reports what the real
  run reports.
\<close>

theorem dry_run_preview_witness:
  "dryRun (demo_options demo_registry True) \<and>
   resolveComponentsWithDependencies (registry (demo_options demo_registry True))
      [''page'', ''form''] = Some (Inr demo_closure) \<and>
   existsSync (disk used_state) ''ui/card/card.css'' \<and>
   map_option (disk \<circ> snd) (installComponents (demo_options demo_registry True) slash_join
      [''page'', ''form''] ''ui'' used_state) = Some (disk used_state) \<and>
   map_option fst (installComponents (demo_options demo_registry True) slash_join
      [''page'', ''form''] ''ui'' used_state)
     = map_option fst (installComponents (demo_options demo_registry False) slash_join
         [''page'', ''form''] ''ui'' used_state)"
proof -
  have d: "dryRun (demo_options demo_registry True)" by (simp add: demo_options_def)
  have r: "resolveComponentsWithDependencies (registry (demo_options demo_registry True))
      [''page'', ''form''] = Some (Inr demo_closure)"
    by (simp add: demo_options_def demo_resolved)
  have o: "(demo_options demo_registry True)\<lparr>dryRun := False\<rparr> = demo_options demo_registry False"
    by (simp add: demo_options_def)
  have ex: "existsSync (disk used_state) ''ui/card/card.css''"
    by (simp add: used_state_def used_disk_def disk_defs)
  from dry_run_preview [OF d r, of slash_join "''ui''" used_state]
  obtain preview st1 real st2
    where p: "installComponents (demo_options demo_registry True) slash_join
                [''page'', ''form''] ''ui'' used_state = Some (Inr preview, st1)"
      and st1: "disk st1 = disk used_state"
      and q: "installComponents (demo_options demo_registry False) slash_join
                [''page'', ''form''] ''ui'' used_state = Some (Inr real, st2)"
      and len: "length preview = length demo_closure"
      and same: "\<And>i. i < length demo_closure \<Longrightarrow> success (real ! i) \<Longrightarrow> preview ! i = real ! i"
      and known: "\<And>i p. i < length demo_closure \<Longrightarrow>
            error (real ! i) = Some (''File already exists: '' @ p) \<Longrightarrow>
            existsSync (disk used_state) p \<Longrightarrow> preview ! i = real ! i"
    unfolding o by blast
  from demo_real q have real: "real =
        [\<lparr>component = ''page'', success = True, files = Some [''ui/page/page.svelte''],
          dependencies = Some [], error = None\<rparr>,
         \<lparr>component = ''form'', success = True, files = Some [''ui/form/form.svelte''],
          dependencies = Some [''zod''], error = None\<rparr>,
         \<lparr>component = ''Card'', success = False, files = None, dependencies = None,
          error = Some ''File already exists: ui/card/card.css''\<rparr>,
         \<lparr>component = ''Button'', success = True, files = Some [''ui/button/button.svelte''],
          dependencies = Some [''clsx''], error = None\<rparr>,
         \<lparr>component = ''input'', success = True, files = Some [''ui/input/input.svelte''],
          dependencies = Some [], error = None\<rparr>]"
    by simp
  have l: "length demo_closure = 5" by (simp add: demo_closure_def)
  have "preview ! 0 = real ! 0" by (rule same) (simp_all add: l real)
  moreover have "preview ! 1 = real ! 1" by (rule same) (simp_all add: l real)
  moreover have "preview ! 2 = real ! 2"
    by (rule known [of 2 "''ui/card/card.css''"]) (simp_all add: l real ex)
  moreover have "preview ! 3 = real ! 3" by (rule same) (simp_all add: l real)
  moreover have "preview ! 4 = real ! 4" by (rule same) (simp_all add: l real)
  ultimately have "preview ! i = real ! i" if "i < 5" for i
  proof -
    from that have "i = 0 \<or> i = 1 \<or> i = 2 \<or> i = 3 \<or> i = 4" by arith
    with \<open>preview ! 0 = real ! 0\<close> \<open>preview ! 1 = real ! 1\<close> \<open>preview ! 2 = real ! 2\<close>
      \<open>preview ! 3 = real ! 3\<close> \<open>preview ! 4 = real ! 4\<close>
    show ?thesis by blast
  qed
  with len l have "preview = real"
    by (intro nth_equalityI) (simp_all add: real)
  with d r ex p q st1 show ?thesis by simp
qed

text \<open>
  Claim C7 as stated fails: for a component that lists one file path two times and an
  empty disk, the simulated run reports success and both paths, the real run reports
  that the file exists already.
\<close>

theorem dry_run_counterexample:
  "map_option fst (installComponents (demo_options twice_registry True) slash_join
      [''twice''] ''ui'' empty_state)
     = Some (Inr [\<lparr>component = ''twice'', success = True,
                   files = Some [''ui/twice/x.svelte'', ''ui/twice/x.svelte''],
                   dependencies = Some [], error = None\<rparr>]) \<and>
   map_option fst (installComponents (demo_options twice_registry False) slash_join
      [''twice''] ''ui'' empty_state)
     = Some (Inr [\<lparr>component = ''twice'', success = False, files = None,
                   dependencies = None,
                   error = Some ''File already exists: ui/twice/x.svelte''\<rparr>])"
  by (simp add: install_defs run_defs demo_defs replaceAll_same)

lemma findUp_None_iff:
  "findUp exists names dir = None \<longleftrightarrow>
     (\<forall>k<length dir. \<forall>n \<in> set names. \<not> exists (take (Suc k) dir @ [n]))"
proof (induction exists names dir rule: findUp.induct)
  case (1 exists names dir)
  show ?case
  proof (cases "dir = root")
    case True
    then show ?thesis by (simp add: root_def)
  next
    case False
    then have ne: "dir \<noteq> []" by (simp add: root_def)
    show ?thesis
    proof (cases "find (\<lambda>n. exists (dir @ [n])) names")
      case (Some n)
      then have "n \<in> set names" "exists (dir @ [n])"
        by (auto simp: find_Some_iff)
      moreover have "take (Suc (length dir - 1)) dir = dir" "length dir - 1 < length dir"
        using ne by simp_all
      ultimately have "\<not> (\<forall>k<length dir. \<forall>n \<in> set names. \<not> exists (take (Suc k) dir @ [n]))"
        by metis
      moreover have "findUp exists names dir \<noteq> None"
        using False Some by simp
      ultimately show ?thesis by blast
    next
      case None
      then have here: "\<forall>n \<in> set names. \<not> exists (dir @ [n])"
        by (simp add: find_None_iff)
      have "findUp exists names dir = findUp exists names (dirname dir)"
        using False None by simp
      also have "\<dots> = None \<longleftrightarrow>
          (\<forall>k<length (dirname dir). \<forall>n \<in> set names. \<not> exists (take (Suc k) (dirname dir) @ [n]))"
        using "1.IH" [OF False None] .
      also have "\<dots> \<longleftrightarrow> (\<forall>k<length dir. \<forall>n \<in> set names. \<not> exists (take (Suc k) dir @ [n]))"
      proof -
        have t: "take (Suc k) (dirname dir) = take (Suc k) dir" if "k < length dir - 1" for k
          using that by (simp add: dirname_def take_butlast)
        have "k < length dir \<longleftrightarrow> k < length dir - 1 \<or> k = length dir - 1" for k
          using ne by (cases dir) auto
        then show ?thesis
          using here t ne by (auto simp: dirname_def)
      qed
      finally show ?thesis .
    qed
  qed
qed

text \<open>
  Claim C9 fails on the code: \<open>findUp\<close> leaves the loop when it reaches the
  filesystem root, before looking into it. A configuration file in the root directory
  is not found, from the root itself or from a directory below it, and \<open>analyze\<close>
  reports that there is none.
\<close>

theorem findUp_skips_root:
  "entry root_only_tree (root @ [''svelte.config.js'']) \<and>
   findSvelteConfig root_only_tree root = None \<and>
   findSvelteConfig root_only_tree [''srv'', ''app''] = None \<and>
   analyze root_only_tree [''srv'', ''app'']
     = \<lparr>isValid = False, analysis.config = None,
        analysis.error = Some ''No svelte.config.js found''\<rparr>"
  by (simp add: root_only_tree_def analyze_def findSvelteConfig_def root_def dirname_def)

end
